theory Spec2Isabelle
  imports Main "HOL-Library.Char_ord" "HOL-Library.List_Lexorder"
begin

section \<open>Strings and derived file names\<close>

text \<open>
  Python strings are modelled as \<open>string\<close>; every \<open>char\<close> stands for one code point.
  \<open>safe_filename\<close> replaces every character outside \<open>safe_chars\<close> by an underscore, cuts
  the result to \<open>max_length\<close> characters and strips white space at both ends.
\<close>

definition safe_chars :: string where
  "safe_chars = ''abcdefghijklmnopqrstuvwxyzABCDEFGHIJKLMNOPQRSTUVWXYZ0123456789-_. ''"

text \<open>The characters \<open>str.isspace\<close> accepts (code points below 256).\<close>

definition isspace :: "char \<Rightarrow> bool" where
  "isspace c = (of_char c \<in> {9, 10, 11, 12, 13, 28, 29, 30, 31, 32, 133, 160 :: nat})"

definition strip :: "string \<Rightarrow> string" where
  "strip s = rev (dropWhile isspace (rev (dropWhile isspace s)))"

definition safe_filename_len :: "string \<Rightarrow> nat \<Rightarrow> string" where
  "safe_filename_len str max_length =
     (let filename = map (\<lambda>c. if c \<in> set safe_chars then c else CHR ''_'') str;
          filename = (if length filename > max_length then take max_length filename
                      else filename)
      in strip filename)"

text \<open>Every caller uses the default \<open>max_length = 100\<close>.\<close>

definition safe_filename :: "string \<Rightarrow> string" where
  "safe_filename str = safe_filename_len str 100"

definition leading_whitespace :: "string \<Rightarrow> bool" where
  "leading_whitespace s = (case s of [] \<Rightarrow> False | c # _ \<Rightarrow> isspace c)"

definition trailing_whitespace :: "string \<Rightarrow> bool" where
  "trailing_whitespace s = leading_whitespace (rev s)"

text \<open>Decimal rendering of integers, as an f-string prints them.\<close>

fun str_nat :: "nat \<Rightarrow> string" where
  "str_nat n = (if n < 10 then [''0123456789'' ! n]
                else str_nat (n div 10) @ [''0123456789'' ! (n mod 10)])"

declare str_nat.simps [simp del]

definition str_int :: "int \<Rightarrow> string" where
  "str_int i = (if i < 0 then CHR ''-'' # str_nat (nat (- i)) else str_nat (nat i))"

section \<open>Data model\<close>

text \<open>
  An issue descriptor as the listing endpoint returns it. \<open>issueDate\<close> is the ISO time stamp
  string of the payload; the catalog is sorted on this string, and the derived file names
  use its first ten characters.
\<close>

record issue =
  congress :: int
  volumeNumber :: int
  issueNumber :: int
  issueDate :: string

text \<open>
  One entry of a section article's \<open>text\<close> list; both keys are read with \<open>.get\<close>, so either
  may be absent.
\<close>

record text_item =
  item_type :: "string option"
  url :: "string option"

record section_article =
  title :: "string option"
  text_items :: "text_item list"

record article =
  sectionArticles :: "section_article list"

definition congress_dir :: "string \<Rightarrow> issue \<Rightarrow> string" where
  "congress_dir output_dir i = output_dir @ ''/congress_'' @ str_int (congress i)"

text \<open>
  The content file of a section article:
  \<open>congress_dir / f"{date}_c{congress}_v{volume_number}_i{issue_number}_{safe_title}.html"\<close>
  with \<open>date = issueDate[:10]\<close>. The completeness check and the download pass build the
  name with the same expression.
\<close>

definition artifact_filename :: "string \<Rightarrow> issue \<Rightarrow> string \<Rightarrow> string" where
  "artifact_filename output_dir i ttl =
     congress_dir output_dir i @ ''/'' @ take 10 (issueDate i) @ ''_c'' @ str_int (congress i)
       @ ''_v'' @ str_int (volumeNumber i) @ ''_i'' @ str_int (issueNumber i)
       @ ''_'' @ safe_filename ttl @ ''.html''"

text \<open>
  \<open>Path.with_suffix\<close>: the last suffix of the name is replaced, and a name without a dot
  gets the suffix appended. The content files it is applied to all end in \<open>.html\<close>.
\<close>

definition with_suffix :: "string \<Rightarrow> string \<Rightarrow> string" where
  "with_suffix p sfx =
     (if CHR ''.'' \<in> set p then rev (tl (dropWhile (\<lambda>c. c \<noteq> CHR ''.'') (rev p))) @ sfx
      else p @ sfx)"

section \<open>The environment and the updater's state\<close>

text \<open>
  The JSON document of a listing response. Each key the code reads may be absent;
  \<open>pagination_next\<close> is the truth value of \<open>data.get('pagination', {}).get('next')\<close>.
\<close>

record payload =
  dailyCongressionalRecord :: "issue list option"
  articles :: "article list option"
  pagination_next :: bool

text \<open>
  What \<open>session.get\<close> followed by \<open>raise_for_status\<close> can yield: a good response with its
  JSON document, a response with status 429, a \<open>requests.exceptions.Timeout\<close>, or any other
  request exception with its message (an HTTP error status included).
\<close>

datatype response =
    Status200 payload
  | Status429
  | Timeout
  | RequestError string

text \<open>
  The environment of a run: the responses of the remote side in the order of the requests,
  the moment an external interrupt arrives (counted in effectful operations: requests,
  sleeps and file writes), and \<open>datetime.fromisoformat\<close> as a map to a point in time.
\<close>

record env =
  net :: "nat \<Rightarrow> response"
  interrupt_at :: "nat option"
  fromisoformat :: "string \<Rightarrow> int"

text \<open>
  The fields of \<open>CongressionalRecordUpdater\<close> (\<open>key_index\<close> is the position of
  \<open>current_api_key\<close> in the cycle over \<open>api_keys\<close>), the paths that exist on disk, those
  among them that were opened for writing and whose content is not yet written, and the
  bookkeeping of the run: requests sent, effectful operations begun, and the waits passed to
  \<open>time.sleep\<close> by the retry logic. The one-second spacing between requests depends on the
  wall clock and is left out.
\<close>

record state =
  api_keys :: "string list"
  key_index :: nat
  request_count :: nat
  consecutive_existing_issues :: nat
  files :: "string set"
  unwritten :: "string set"
  sent :: nat
  ops :: nat
  slept :: "nat list"

text \<open>
  Exceptions that leave \<open>process_issue\<close>. \<open>KeyboardInterrupt\<close> is raised by the operation
  during which the interrupt arrives; it is not an \<open>Exception\<close>, so no handler of the client
  catches it and it reaches the loop of \<open>main\<close>. Operations on the local disk are taken to
  succeed, so no other exception arises here; \<open>OtherException\<close> stands for the second
  handler of that loop.
\<close>

datatype exc = KeyboardInterrupt | OtherException

type_synonym 'a outcome = "(exc + 'a) \<times> state"

definition stop_threshold :: nat where
  "stop_threshold = 3"


definition current_api_key :: "state \<Rightarrow> string" where
  "current_api_key s = api_keys s ! key_index s"

text \<open>
  The effectful operations: \<open>time.sleep\<close>, \<open>session.get\<close>, and the two steps of
  \<open>with open(path, 'w') as f: f.write(...)\<close>. The interrupt arrives once: the operation
  during which it arrives raises \<open>KeyboardInterrupt\<close> instead of taking effect, and an
  operation begun after that runs as usual.
\<close>

definition interrupted :: "env \<Rightarrow> state \<Rightarrow> bool" where
  "interrupted env s = (interrupt_at env = Some (ops s))"

definition time_sleep :: "env \<Rightarrow> nat \<Rightarrow> state \<Rightarrow> unit outcome" where
  "time_sleep env seconds s =
     (if interrupted env s then (Inl KeyboardInterrupt, s\<lparr>ops := ops s + 1\<rparr>)
      else (Inr (), s\<lparr>ops := ops s + 1, slept := slept s @ [seconds]\<rparr>))"

definition session_get :: "env \<Rightarrow> state \<Rightarrow> response outcome" where
  "session_get env s =
     (if interrupted env s then (Inl KeyboardInterrupt, s\<lparr>ops := ops s + 1\<rparr>)
      else (Inr (net env (sent s)), s\<lparr>ops := ops s + 1, sent := sent s + 1\<rparr>))"

text \<open>
  \<open>open(path, 'w')\<close> creates the file, or empties it, before anything is written: from then
  on the path exists. The write that follows, with the close at the end of the \<open>with\<close>
  block, completes the content.
\<close>

definition open_for_writing :: "env \<Rightarrow> string \<Rightarrow> state \<Rightarrow> unit outcome" where
  "open_for_writing env path s =
     (if interrupted env s then (Inl KeyboardInterrupt, s\<lparr>ops := ops s + 1\<rparr>)
      else (Inr (), s\<lparr>ops := ops s + 1, files := insert path (files s),
                      unwritten := insert path (unwritten s)\<rparr>))"

definition write_and_close :: "env \<Rightarrow> string \<Rightarrow> state \<Rightarrow> unit outcome" where
  "write_and_close env path s =
     (if interrupted env s then (Inl KeyboardInterrupt, s\<lparr>ops := ops s + 1\<rparr>)
      else (Inr (), s\<lparr>ops := ops s + 1, unwritten := unwritten s - {path}\<rparr>))"

definition write_file :: "env \<Rightarrow> string \<Rightarrow> state \<Rightarrow> unit outcome" where
  "write_file env path s =
     (case open_for_writing env path s of
        (Inl e, s1) \<Rightarrow> (Inl e, s1)
      | (Inr _, s1) \<Rightarrow> write_and_close env path s1)"

section \<open>The rate-limited client\<close>

definition get_next_api_key :: "state \<Rightarrow> state" where
  "get_next_api_key s = s\<lparr>key_index := (key_index s + 1) mod length (api_keys s)\<rparr>"

definition handle_429_error :: "env \<Rightarrow> nat \<Rightarrow> state \<Rightarrow> unit outcome" where
  "handle_429_error env attempt s =
     (if length (api_keys s) > 1 then (Inr (), get_next_api_key s)
      else let wait_time = (if attempt \<le> 5 then min (2 ^ attempt) 60 else 60)
           in time_sleep env wait_time s)"

text \<open>
  The two lines before every request: \<open>self.request_count += 1\<close> and the rotation of the
  key when the counter is a multiple of \<open>period\<close>.
\<close>

definition count_request :: "nat \<Rightarrow> state \<Rightarrow> state" where
  "count_request period s =
     (let s1 = s\<lparr>request_count := request_count s + 1\<rparr>
      in if request_count s1 mod period = 0 then get_next_api_key s1 else s1)"

text \<open>\<open>needle in haystack\<close> on strings.\<close>

fun contains :: "string \<Rightarrow> string \<Rightarrow> bool" where
  "contains needle [] = (needle = [])"
| "contains needle (c # cs) =
     (take (length needle) (c # cs) = needle \<or> contains needle cs)"

text \<open>One pass through a retry loop either goes round again or returns.\<close>

datatype 'a iteration = Retry | Return 'a

text \<open>
  The body of the \<open>while\<close> loop of \<open>make_request\<close>. Every path that continues the loop has
  incremented \<open>attempt\<close>.
\<close>

definition request_attempt :: "env \<Rightarrow> nat \<Rightarrow> state \<Rightarrow> payload option iteration outcome" where
  "request_attempt env attempt s =
     (case session_get env (count_request 4 s) of
        (Inl e, s3) \<Rightarrow> (Inl e, s3)
         | (Inr Status429, s3) \<Rightarrow>
             (case handle_429_error env attempt s3 of
                (Inl e, s4) \<Rightarrow> (Inl e, s4)
              | (Inr _, s4) \<Rightarrow> (Inr Retry, s4))
         | (Inr (Status200 data), s3) \<Rightarrow> (Inr (Return (Some data)), s3)
         | (Inr Timeout, s3) \<Rightarrow>
             (if attempt < 3 then
                (case time_sleep env 1 s3 of
                   (Inl e, s4) \<Rightarrow> (Inl e, s4)
                 | (Inr _, s4) \<Rightarrow> (Inr Retry, s4))
              else (Inr (Return None), s3))
         | (Inr (RequestError msg), s3) \<Rightarrow>
             (if contains ''429'' msg then
                (case handle_429_error env attempt s3 of
                   (Inl e, s4) \<Rightarrow> (Inl e, s4)
                 | (Inr _, s4) \<Rightarrow> (Inr Retry, s4))
              else (Inr (Return None), s3)))"

text \<open>
  \<open>make_request\<close> is always called with \<open>max_retries = inf\<close>, so its loop condition always
  holds; a run that never returns has the value \<open>None\<close>.
\<close>

partial_function (option) make_request_loop ::
  "env \<Rightarrow> nat \<Rightarrow> state \<Rightarrow> payload option outcome option" where
  "make_request_loop env attempt s =
     (case request_attempt env attempt s of
        (Inl e, s') \<Rightarrow> Some (Inl e, s')
      | (Inr Retry, s') \<Rightarrow> make_request_loop env (attempt + 1) s'
      | (Inr (Return r), s') \<Rightarrow> Some (Inr r, s'))"

declare make_request_loop.simps [code]

definition make_request :: "env \<Rightarrow> state \<Rightarrow> payload option outcome option" where
  "make_request env s = make_request_loop env 1 s"


text \<open>
  The body of the \<open>while\<close> loop of \<open>download_article_text\<close>. The body of the response is
  written to \<open>filename\<close>; of the file, its existence and whether its content is complete
  are recorded.
\<close>

definition download_attempt ::
  "env \<Rightarrow> string \<Rightarrow> nat \<Rightarrow> nat \<Rightarrow> state \<Rightarrow> bool iteration outcome" where
  "download_attempt env filename max_retries attempt s =
     (case session_get env (count_request 10 s) of
           (Inl e, s3) \<Rightarrow> (Inl e, s3)
         | (Inr Status429, s3) \<Rightarrow>
             (case handle_429_error env attempt s3 of
                (Inl e, s4) \<Rightarrow> (Inl e, s4)
              | (Inr _, s4) \<Rightarrow> (Inr Retry, s4))
         | (Inr (Status200 data), s3) \<Rightarrow>
             (case write_file env filename s3 of
                (Inl e, s4) \<Rightarrow> (Inl e, s4)
              | (Inr _, s4) \<Rightarrow> (Inr (Return True), s4))
         | (Inr Timeout, s3) \<Rightarrow>
             (if attempt < max_retries then
                (case time_sleep env 1 s3 of
                   (Inl e, s4) \<Rightarrow> (Inl e, s4)
                 | (Inr _, s4) \<Rightarrow> (Inr Retry, s4))
              else (Inr (Return False), s3))
         | (Inr (RequestError msg), s3) \<Rightarrow>
             (if contains ''429'' msg then
                (case handle_429_error env attempt s3 of
                   (Inl e, s4) \<Rightarrow> (Inl e, s4)
                 | (Inr _, s4) \<Rightarrow> (Inr Retry, s4))
              else (Inr (Return False), s3)))"

text \<open>
  The loop \<open>while attempt <= max_retries\<close>. When the condition fails the function falls off
  its end and returns Python's \<open>None\<close>, here the result \<open>None\<close> of type \<open>bool option\<close>.
\<close>

function download_loop ::
  "env \<Rightarrow> string \<Rightarrow> nat \<Rightarrow> nat \<Rightarrow> state \<Rightarrow> bool option outcome" where
  "download_loop env filename max_retries attempt s =
     (if attempt \<le> max_retries then
        (case download_attempt env filename max_retries attempt s of
           (Inl e, s') \<Rightarrow> (Inl e, s')
         | (Inr Retry, s') \<Rightarrow> download_loop env filename max_retries (attempt + 1) s'
         | (Inr (Return b), s') \<Rightarrow> (Inr (Some b), s'))
      else (Inr None, s))"
  by pat_completeness auto
termination
  by (relation "measure (\<lambda>(env, filename, max_retries, attempt, s). max_retries + 1 - attempt)")
    auto

declare download_loop.simps [simp del]

definition download_article_text :: "env \<Rightarrow> string \<Rightarrow> state \<Rightarrow> bool option outcome" where
  "download_article_text env filename s = download_loop env filename 3 1 s"

text \<open>
  The request names the issue in its URL; the response is the next one of the environment.
  A failed request, an empty document and a document without the key \<open>articles\<close> all give
  the empty list.
\<close>

definition get_articles_for_issue ::
  "env \<Rightarrow> int \<Rightarrow> int \<Rightarrow> state \<Rightarrow> article list outcome option" where
  "get_articles_for_issue env volume_number issue_number s =
     (case make_request env s of
        None \<Rightarrow> None
      | Some (Inl e, s') \<Rightarrow> Some (Inl e, s')
      | Some (Inr data, s') \<Rightarrow>
          Some (Inr (case data of
                       None \<Rightarrow> []
                     | Some d \<Rightarrow> (case articles d of None \<Rightarrow> [] | Some arts \<Rightarrow> arts)), s'))"

section \<open>The completeness check\<close>

text \<open>
  The inner \<open>for text_item in text_urls\<close> loop: the \<open>url\<close> of the first item whose type is
  \<open>Formatted Text\<close>, and the test \<open>if formatted_text_url:\<close>, which fails for an absent and for
  an empty URL.
\<close>

fun formatted_text_url :: "text_item list \<Rightarrow> string option" where
  "formatted_text_url [] = None"
| "formatted_text_url (t # ts) =
     (if item_type t = Some ''Formatted Text'' then url t else formatted_text_url ts)"

definition truthy :: "string option \<Rightarrow> bool" where
  "truthy u = (case u of None \<Rightarrow> False | Some v \<Rightarrow> v \<noteq> [])"

text \<open>\<open>section_article.get('title', f'Section_{i}')\<close>\<close>

definition title_of :: "nat \<Rightarrow> section_article \<Rightarrow> string" where
  "title_of i sa = (case title sa of None \<Rightarrow> ''Section_'' @ str_nat i | Some t \<Rightarrow> t)"

text \<open>
  The two nested loops of \<open>check_issue_completeness\<close>, with the pair
  \<open>(total_articles, existing_articles)\<close> as accumulator.
\<close>

fun check_section_articles ::
  "string set \<Rightarrow> string \<Rightarrow> issue \<Rightarrow> nat \<Rightarrow> section_article list \<Rightarrow> nat \<times> nat \<Rightarrow> nat \<times> nat" where
  "check_section_articles fs output_dir iss i [] acc = acc"
| "check_section_articles fs output_dir iss i (sa # sas) (total_articles, existing_articles) =
     (if truthy (formatted_text_url (text_items sa)) then
        check_section_articles fs output_dir iss (i + 1) sas
          (total_articles + 1,
           if artifact_filename output_dir iss (title_of i sa) \<in> fs
           then existing_articles + 1 else existing_articles)
      else check_section_articles fs output_dir iss (i + 1) sas (total_articles, existing_articles))"

fun check_articles ::
  "string set \<Rightarrow> string \<Rightarrow> issue \<Rightarrow> article list \<Rightarrow> nat \<times> nat \<Rightarrow> nat \<times> nat" where
  "check_articles fs output_dir iss [] acc = acc"
| "check_articles fs output_dir iss (a # arts) acc =
     check_articles fs output_dir iss arts
       (check_section_articles fs output_dir iss 0 (sectionArticles a) acc)"

definition check_issue_completeness ::
  "env \<Rightarrow> issue \<Rightarrow> string \<Rightarrow> state \<Rightarrow> (bool \<times> nat \<times> nat) outcome option" where
  "check_issue_completeness env iss output_dir s =
     (if congress_dir output_dir iss \<notin> files s then Some (Inr (False, 0, 0), s)
      else
        (case get_articles_for_issue env (volumeNumber iss) (issueNumber iss) s of
           None \<Rightarrow> None
         | Some (Inl e, s') \<Rightarrow> Some (Inl e, s')
         | Some (Inr arts, s') \<Rightarrow>
             (case check_articles (files s') output_dir iss arts (0, 0) of
                (total_articles, existing_articles) \<Rightarrow>
                  Some (Inr (total_articles > 0 \<and> existing_articles = total_articles,
                             existing_articles, total_articles), s'))))"

section \<open>The download controller\<close>

text \<open>
  The loops of \<open>process_issue\<close>, with \<open>(downloaded_count, newly_downloaded)\<close> as accumulator.
  A successful download is followed by the write of the metadata file
  \<open>filename.with_suffix('.json')\<close>.
\<close>

fun download_section_articles ::
  "env \<Rightarrow> string \<Rightarrow> issue \<Rightarrow> nat \<Rightarrow> section_article list \<Rightarrow> nat \<times> nat \<Rightarrow> state
     \<Rightarrow> (nat \<times> nat) outcome" where
  "download_section_articles env output_dir iss i [] acc s = (Inr acc, s)"
| "download_section_articles env output_dir iss i (sa # sas) (downloaded_count, newly_downloaded) s =
     (if truthy (formatted_text_url (text_items sa)) then
        (let filename = artifact_filename output_dir iss (title_of i sa) in
         if filename \<in> files s then
           download_section_articles env output_dir iss (i + 1) sas
             (downloaded_count + 1, newly_downloaded) s
         else
           (case download_article_text env filename s of
              (Inl e, s') \<Rightarrow> (Inl e, s')
            | (Inr r, s') \<Rightarrow>
                (if r = Some True then
                   (case write_file env (with_suffix filename ''.json'') s' of
                      (Inl e, s'') \<Rightarrow> (Inl e, s'')
                    | (Inr _, s'') \<Rightarrow>
                        download_section_articles env output_dir iss (i + 1) sas
                          (downloaded_count + 1, newly_downloaded + 1) s'')
                 else
                   download_section_articles env output_dir iss (i + 1) sas
                     (downloaded_count, newly_downloaded) s')))
      else
        download_section_articles env output_dir iss (i + 1) sas
          (downloaded_count, newly_downloaded) s)"

fun download_articles ::
  "env \<Rightarrow> string \<Rightarrow> issue \<Rightarrow> article list \<Rightarrow> nat \<times> nat \<Rightarrow> state \<Rightarrow> (nat \<times> nat) outcome" where
  "download_articles env output_dir iss [] acc s = (Inr acc, s)"
| "download_articles env output_dir iss (a # arts) acc s =
     (case download_section_articles env output_dir iss 0 (sectionArticles a) acc s of
        (Inl e, s') \<Rightarrow> (Inl e, s')
      | (Inr acc', s') \<Rightarrow> download_articles env output_dir iss arts acc' s')"

text \<open>
  \<open>process_issue\<close> returns \<open>(newly_downloaded, should_stop)\<close>. A complete issue below the
  threshold falls through to the download part like an incomplete one.
\<close>

definition process_issue ::
  "env \<Rightarrow> issue \<Rightarrow> string \<Rightarrow> state \<Rightarrow> (nat \<times> bool) outcome option" where
  "process_issue env iss output_dir s =
     (case check_issue_completeness env iss output_dir s of
        None \<Rightarrow> None
      | Some (Inl e, s1) \<Rightarrow> Some (Inl e, s1)
      | Some (Inr (is_complete, existing_count, total_count), s1) \<Rightarrow>
          (let s2 = (if is_complete
                     then s1\<lparr>consecutive_existing_issues := consecutive_existing_issues s1 + 1\<rparr>
                     else s1\<lparr>consecutive_existing_issues := 0\<rparr>)
           in if is_complete \<and> consecutive_existing_issues s2 \<ge> stop_threshold
              then Some (Inr (0, True), s2)
              else
                (let s3 = s2\<lparr>files := insert (congress_dir output_dir iss) (files s2)\<rparr>
                 in case get_articles_for_issue env (volumeNumber iss) (issueNumber iss) s3 of
                      None \<Rightarrow> None
                    | Some (Inl e, s4) \<Rightarrow> Some (Inl e, s4)
                    | Some (Inr arts, s4) \<Rightarrow>
                        (case download_articles env output_dir iss arts (0, 0) s4 of
                           (Inl e, s5) \<Rightarrow> Some (Inl e, s5)
                         | (Inr (downloaded_count, newly_downloaded), s5) \<Rightarrow>
                             Some (Inr (newly_downloaded, False), s5)))))"

text \<open>
  The loop of \<open>main\<close> over the issues, newest first, with
  \<open>(total_new_downloads, issues_processed)\<close> as accumulator: it ends when \<open>process_issue\<close>
  signals the stop or raises \<open>KeyboardInterrupt\<close>, and goes on to the next issue after any
  other exception.
\<close>

fun main_loop ::
  "env \<Rightarrow> string \<Rightarrow> issue list \<Rightarrow> nat \<times> nat \<Rightarrow> state \<Rightarrow> ((nat \<times> nat) \<times> state) option" where
  "main_loop env output_dir [] acc s = Some (acc, s)"
| "main_loop env output_dir (iss # rest) (total_new_downloads, issues_processed) s =
     (case process_issue env iss output_dir s of
        None \<Rightarrow> None
      | Some (Inl KeyboardInterrupt, s') \<Rightarrow> Some ((total_new_downloads, issues_processed), s')
      | Some (Inl OtherException, s') \<Rightarrow>
          main_loop env output_dir rest (total_new_downloads, issues_processed) s'
      | Some (Inr (newly_downloaded, should_stop), s') \<Rightarrow>
          (if should_stop
           then Some ((total_new_downloads + newly_downloaded, issues_processed + 1), s')
           else main_loop env output_dir rest
                  (total_new_downloads + newly_downloaded, issues_processed + 1) s'))"

section \<open>The catalog synchroniser\<close>

text \<open>
  The \<open>for issue in issues\<close> loop of \<open>fetch_recent_issues\<close> on one page: the accumulated list
  and whether the loop left the function at an issue older than \<open>start_date\<close>.
\<close>

fun take_page ::
  "(string \<Rightarrow> int) \<Rightarrow> int \<Rightarrow> issue list \<Rightarrow> issue list \<Rightarrow> issue list \<times> bool" where
  "take_page parse start_date [] all_issues = (all_issues, False)"
| "take_page parse start_date (iss # rest) all_issues =
     (if parse (issueDate iss) < start_date then (all_issues, True)
      else take_page parse start_date rest (all_issues @ [iss]))"

partial_function (option) fetch_loop ::
  "env \<Rightarrow> int \<Rightarrow> issue list \<Rightarrow> state \<Rightarrow> issue list outcome option" where
  "fetch_loop env start_date all_issues s =
     (case make_request env s of
        None \<Rightarrow> None
      | Some (Inl e, s') \<Rightarrow> Some (Inl e, s')
      | Some (Inr None, s') \<Rightarrow> Some (Inr all_issues, s')
      | Some (Inr (Some data), s') \<Rightarrow>
          (case dailyCongressionalRecord data of
             None \<Rightarrow> Some (Inr all_issues, s')
           | Some issues \<Rightarrow>
               (if issues = [] then Some (Inr all_issues, s')
                else
                  (case take_page (fromisoformat env) start_date issues all_issues of
                     (all_issues', crossed) \<Rightarrow>
                       (if crossed then Some (Inr all_issues', s')
                        else if \<not> pagination_next data then Some (Inr all_issues', s')
                        else fetch_loop env start_date all_issues' s')))))"

declare fetch_loop.simps [code]

text \<open>Without a start date the listing is read back to the first of January 2014.\<close>

definition fetch_recent_issues ::
  "env \<Rightarrow> int option \<Rightarrow> state \<Rightarrow> issue list outcome option" where
  "fetch_recent_issues env start_date s =
     (let start = (case start_date of
                     None \<Rightarrow> fromisoformat env ''2014-01-01T00:00:00+00:00''
                   | Some d \<Rightarrow> d)
      in fetch_loop env start [] s)"

text \<open>\<open>xs.sort(key=lambda x: x['issueDate'], reverse=True)\<close>: a stable sort, newest first.\<close>

definition sort_newest_first :: "issue list \<Rightarrow> issue list" where
  "sort_newest_first xs = rev (sort_key issueDate (rev xs))"

definition issue_id :: "issue \<Rightarrow> int \<times> int" where
  "issue_id iss = (volumeNumber iss, issueNumber iss)"

text \<open>
  The merge loop of \<open>update_issues_file\<close>; \<open>existing_ids\<close> is computed once, before the loop.
\<close>

fun append_new :: "(int \<times> int) set \<Rightarrow> issue list \<Rightarrow> issue list \<Rightarrow> issue list" where
  "append_new existing_ids existing_issues [] = existing_issues"
| "append_new existing_ids existing_issues (iss # rest) =
     (if issue_id iss \<notin> existing_ids
      then append_new existing_ids (existing_issues @ [iss]) rest
      else append_new existing_ids existing_issues rest)"

text \<open>
  \<open>update_issues_file\<close>, given the catalog loaded from the file (the empty list when the
  file is missing or unreadable); the result is the catalog it writes and returns.
\<close>

definition update_issues_file ::
  "env \<Rightarrow> issue list \<Rightarrow> state \<Rightarrow> issue list outcome option" where
  "update_issues_file env loaded s =
     (let existing_issues = (if loaded \<noteq> [] then sort_newest_first loaded else loaded);
          newest_existing_date =
            (if loaded \<noteq> [] then Some (fromisoformat env (issueDate (hd existing_issues)))
             else None)
      in case fetch_recent_issues env newest_existing_date s of
           None \<Rightarrow> None
         | Some (Inl e, s') \<Rightarrow> Some (Inl e, s')
         | Some (Inr recent_issues, s') \<Rightarrow>
             (if recent_issues = [] then Some (Inr existing_issues, s')
              else Some (Inr (sort_newest_first
                     (append_new (set (map issue_id existing_issues)) existing_issues
                        recent_issues)), s')))"

section \<open>Auxiliary definitions for the proofs\<close>

text \<open>The state after a request that was answered with status 429.\<close>

definition after_429 :: "nat \<Rightarrow> nat \<Rightarrow> state \<Rightarrow> state" where
  "after_429 period attempt s =
     (let s2 = count_request period s;
          s3 = s2\<lparr>ops := ops s2 + 1, sent := sent s2 + 1\<rparr>
      in if length (api_keys s3) > 1 then get_next_api_key s3
         else s3\<lparr>ops := ops s3 + 1,
                 slept := slept s3 @ [if attempt \<le> 5 then min (2 ^ attempt) 60 else 60]\<rparr>)"


text \<open>
  A section article the loops treat as downloadable: the first \<open>Formatted Text\<close> item of
  its \<open>text\<close> list carries a non-empty URL.
\<close>

definition downloadable :: "section_article \<Rightarrow> bool" where
  "downloadable sa = truthy (formatted_text_url (text_items sa))"

text \<open>A section article that has a \<open>Formatted Text\<close> variant at all.\<close>

definition has_formatted_text :: "section_article \<Rightarrow> bool" where
  "has_formatted_text sa = list_ex (\<lambda>t. item_type t = Some ''Formatted Text'') (text_items sa)"

text \<open>
  The section articles of a listing, each with its position in its own article group, and
  the test that the artifact of such an entry exists.
\<close>

definition indexed_section_articles :: "article list \<Rightarrow> (nat \<times> section_article) list" where
  "indexed_section_articles arts = concat (map (\<lambda>a. enumerate 0 (sectionArticles a)) arts)"

definition artifact_present :: "string set \<Rightarrow> string \<Rightarrow> issue \<Rightarrow> nat \<times> section_article \<Rightarrow> bool" where
  "artifact_present fs output_dir iss e =
     (downloadable (snd e) \<and> artifact_filename output_dir iss (title_of (fst e) (snd e)) \<in> fs)"

text \<open>
  What \<open>fetch_recent_issues\<close> reads from the value \<open>make_request\<close> returned: the issues of
  the page (none for a failed request or a document without the key) and whether the
  document announces a next page.
\<close>

definition data_issues :: "payload option \<Rightarrow> issue list" where
  "data_issues data =
     (case data of
        None \<Rightarrow> []
      | Some d \<Rightarrow> (case dailyCongressionalRecord d of None \<Rightarrow> [] | Some issues \<Rightarrow> issues))"

definition data_next :: "payload option \<Rightarrow> bool" where
  "data_next data = (case data of None \<Rightarrow> False | Some d \<Rightarrow> pagination_next d)"

text \<open>
  Successive listing requests, starting in state \<open>s\<close>, return exactly the given values; the
  result is the state after the last of them.
\<close>

fun listing_served :: "env \<Rightarrow> state \<Rightarrow> payload option list \<Rightarrow> state option" where
  "listing_served env s [] = Some s"
| "listing_served env s (p # ps) =
     (case make_request env s of
        Some (Inr data, s1) \<Rightarrow> if data = p then listing_served env s1 ps else None
      | _ \<Rightarrow> None)"

definition not_older :: "env \<Rightarrow> int \<Rightarrow> issue \<Rightarrow> bool" where
  "not_older env start_date iss = (\<not> fromisoformat env (issueDate iss) < start_date)"

text \<open>
  What every operation of the client and of the download loops leaves alone: the keys and
  the counter of complete issues stay, files are only added, and the count of operations
  only grows.
\<close>

definition advances :: "env \<Rightarrow> state \<Rightarrow> state \<Rightarrow> bool" where
  "advances env s s' =
     (api_keys s' = api_keys s \<and> files s \<subseteq> files s' \<and> ops s \<le> ops s')"

definition proceeds :: "env \<Rightarrow> state \<Rightarrow> state \<Rightarrow> bool" where
  "proceeds env s s' =
     (advances env s s' \<and> consecutive_existing_issues s' = consecutive_existing_issues s)"


section \<open>Example data\<close>

fun digit_value :: "char \<Rightarrow> int option" where
  "digit_value c = map_of (zip ''0123456789'' [0, 1, 2, 3, 4, 5, 6, 7, 8, 9]) c"

text \<open>
  A stand-in for \<open>datetime.fromisoformat\<close> in the examples: the day of an ISO time stamp as
  the number \<open>yyyymmdd\<close>.
\<close>

definition example_fromisoformat :: "string \<Rightarrow> int" where
  "example_fromisoformat s =
     fold (\<lambda>c n. case digit_value c of Some d \<Rightarrow> 10 * n + d | None \<Rightarrow> n) (take 10 s) 0"

definition example_env :: "(nat \<Rightarrow> response) \<Rightarrow> nat option \<Rightarrow> env" where
  "example_env responses interrupt =
     \<lparr>net = responses, interrupt_at = interrupt, fromisoformat = example_fromisoformat\<rparr>"

text \<open>A new updater in a world where the given paths exist.\<close>

definition example_state :: "string list \<Rightarrow> string list \<Rightarrow> state" where
  "example_state keys paths =
     \<lparr>api_keys = keys, key_index = 0, request_count = 0, consecutive_existing_issues = 0,
      files = set paths, unwritten = {}, sent = 0, ops = 0, slept = []\<rparr>"

definition empty_document :: payload where
  "empty_document = \<lparr>dailyCongressionalRecord = None, articles = None, pagination_next = False\<rparr>"

text \<open>The first \<open>n\<close> requests are answered with status 429, all later ones with \<open>data\<close>.\<close>

definition rate_limited :: "nat \<Rightarrow> payload \<Rightarrow> nat \<Rightarrow> response" where
  "rate_limited n data k = (if k < n then Status429 else Status200 data)"


definition articles_document :: "article list \<Rightarrow> payload" where
  "articles_document arts =
     \<lparr>dailyCongressionalRecord = None, articles = Some arts, pagination_next = False\<rparr>"

definition example_issue :: "int \<Rightarrow> issue" where
  "example_issue n =
     \<lparr>congress = 118, volumeNumber = 170, issueNumber = n, issueDate = ''2024-03-12T04:00:00Z''\<rparr>"

text \<open>A section article with one \<open>Formatted Text\<close> variant, with and without its URL.\<close>

definition senate_section :: section_article where
  "senate_section =
     \<lparr>title = Some ''Senate'',
      text_items = [\<lparr>item_type = Some ''PDF'', url = Some ''https://example.org/s.pdf''\<rparr>,
                    \<lparr>item_type = Some ''Formatted Text'', url = Some ''https://example.org/s.htm''\<rparr>]\<rparr>"

definition house_section :: section_article where
  "house_section =
     \<lparr>title = Some ''House'',
      text_items = [\<lparr>item_type = Some ''Formatted Text'', url = Some ''https://example.org/h.htm''\<rparr>]\<rparr>"

definition section_without_url :: section_article where
  "section_without_url =
     \<lparr>title = Some ''Daily Digest'',
      text_items = [\<lparr>item_type = Some ''Formatted Text'', url = None\<rparr>]\<rparr>"

text \<open>
  A world in which the artifacts of the issues 45, 44 and 43 are on disk and every listing
  names the one section article \<open>Senate\<close>.
\<close>

definition senate_env :: env where
  "senate_env =
     example_env (rate_limited 0 (articles_document [\<lparr>sectionArticles = [senate_section]\<rparr>])) None"

definition three_complete :: state where
  "three_complete =
     example_state [''key-1'', ''key-2'']
       [''congressional_records'', ''congressional_records/congress_118'',
        ''congressional_records/congress_118/2024-03-12_c118_v170_i45_Senate.html'',
        ''congressional_records/congress_118/2024-03-12_c118_v170_i44_Senate.html'',
        ''congressional_records/congress_118/2024-03-12_c118_v170_i43_Senate.html'']"

text \<open>Listing pages for the synchroniser: the first request gets one page, all later ones another.\<close>

definition dated_issue :: "int \<Rightarrow> string \<Rightarrow> issue" where
  "dated_issue n date = \<lparr>congress = 118, volumeNumber = 169, issueNumber = n, issueDate = date\<rparr>"

definition issues_document :: "issue list \<Rightarrow> bool \<Rightarrow> payload" where
  "issues_document issues has_next =
     \<lparr>dailyCongressionalRecord = Some issues, articles = None, pagination_next = has_next\<rparr>"

definition two_pages :: "payload \<Rightarrow> payload \<Rightarrow> nat \<Rightarrow> response" where
  "two_pages a b k = (if k = 0 then Status200 a else Status200 b)"

definition june_pages :: env where
  "june_pages =
     example_env
       (two_pages
          (issues_document [dated_issue 96 ''2023-06-05T04:00:00Z'',
                            dated_issue 95 ''2023-06-02T04:00:00Z''] True)
          (issues_document [dated_issue 94 ''2023-06-01T04:00:00Z'',
                            dated_issue 93 ''2023-05-31T04:00:00Z'',
                            dated_issue 92 ''2023-05-30T04:00:00Z''] True))
       None"

definition june_catalog :: "issue list" where
  "june_catalog = [dated_issue 93 ''2023-05-31T04:00:00Z'', dated_issue 94 ''2023-06-01T04:00:00Z'']"

text \<open>Two pages that overlap in issue 95, as when the listing shifts between two requests.\<close>

definition overlapping_pages :: env where
  "overlapping_pages =
     example_env
       (two_pages
          (issues_document [dated_issue 96 ''2023-06-05T04:00:00Z'',
                            dated_issue 95 ''2023-06-02T04:00:00Z''] True)
          (issues_document [dated_issue 95 ''2023-06-02T04:00:00Z'',
                            dated_issue 94 ''2023-06-01T04:00:00Z''] False))
       None"




text \<open>A number of downloads in a row, each to the next of the given files.\<close>

fun downloads_in_a_row :: "env \<Rightarrow> string list \<Rightarrow> state \<Rightarrow> state" where
  "downloads_in_a_row env [] s = s"
| "downloads_in_a_row env (f # fs) s =
     downloads_in_a_row env fs (snd (download_article_text env f s))"

section \<open>Properties of the file name sanitisation\<close>

lemma length_strip: "length (strip s) \<le> length s"
proof -
  have "length (dropWhile isspace (rev (dropWhile isspace s))) \<le> length (rev (dropWhile isspace s))"
    by (rule length_dropWhile_le)
  also have "\<dots> \<le> length s"
    by (simp add: length_dropWhile_le)
  finally show ?thesis by (simp add: strip_def)
qed

lemma set_strip: "set (strip s) \<subseteq> set s"
proof
  fix c assume "c \<in> set (strip s)"
  then have "c \<in> set (dropWhile isspace (rev (dropWhile isspace s)))"
    by (simp add: strip_def)
  then have "c \<in> set (rev (dropWhile isspace s))"
    by (rule set_dropWhileD)
  then have "c \<in> set (dropWhile isspace s)" by simp
  then show "c \<in> set s" by (rule set_dropWhileD)
qed

lemma strip_no_trailing: "\<not> trailing_whitespace (strip s)"
proof -
  define d where "d = dropWhile isspace (rev (dropWhile isspace s))"
  have "\<not> leading_whitespace d"
  proof (cases d)
    case Nil
    then show ?thesis by (simp add: leading_whitespace_def)
  next
    case (Cons c cs)
    then have "d \<noteq> []" by simp
    then have "\<not> isspace (hd d)"
      unfolding d_def by (rule hd_dropWhile)
    with Cons show ?thesis by (simp add: leading_whitespace_def)
  qed
  then show ?thesis
    by (simp add: trailing_whitespace_def strip_def d_def)
qed

lemma strip_no_leading: "\<not> leading_whitespace (strip s)"
proof (cases "strip s")
  case Nil
  then show ?thesis by (simp add: leading_whitespace_def)
next
  case (Cons c cs)
  define ys where "ys = dropWhile isspace s"
  have "ys = strip s @ rev (takeWhile isspace (rev ys))"
    unfolding strip_def ys_def
    by (metis rev_append rev_rev_ident takeWhile_dropWhile_id)
  with Cons have ys: "ys = c # cs @ rev (takeWhile isspace (rev ys))"
    by simp
  then have "ys \<noteq> []" by auto
  then have "\<not> isspace (hd ys)"
    unfolding ys_def by (rule hd_dropWhile)
  moreover have "hd ys = c" by (subst ys) simp
  ultimately show ?thesis using Cons by (simp add: leading_whitespace_def)
qed

lemma underscore_safe: "CHR ''_'' \<in> set safe_chars"
  by (simp add: safe_chars_def)

lemma set_sanitised:
  "set (map (\<lambda>c. if c \<in> set safe_chars then c else CHR ''_'') str) \<subseteq> set safe_chars"
proof
  fix x assume "x \<in> set (map (\<lambda>c. if c \<in> set safe_chars then c else CHR ''_'') str)"
  then have "x \<in> (\<lambda>c. if c \<in> set safe_chars then c else CHR ''_'') ` set str"
    by (simp only: set_map)
  then obtain c where "x = (if c \<in> set safe_chars then c else CHR ''_'')"
    by (rule imageE)
  then show "x \<in> set safe_chars"
    using underscore_safe by (cases "c \<in> set safe_chars") simp_all
qed

lemma truncate_take:
  "(if length (m :: string) > n then take n m else m) = take n m"
  by simp

lemma set_safe_filename_len: "set (safe_filename_len str n) \<subseteq> set safe_chars"
proof -
  define m where "m = map (\<lambda>c. if c \<in> set safe_chars then c else CHR ''_'') str"
  have m: "set m \<subseteq> set safe_chars"
    unfolding m_def by (rule set_sanitised)
  have "set (strip (take n m)) \<subseteq> set (take n m)" by (rule set_strip)
  also have "\<dots> \<subseteq> set m" by (rule set_take_subset)
  also note m
  finally show ?thesis
    unfolding safe_filename_len_def Let_def truncate_take m_def .
qed

lemma length_safe_filename_len: "length (safe_filename_len str n) \<le> n"
proof -
  define m where "m = map (\<lambda>c. if c \<in> set safe_chars then c else CHR ''_'') str"
  have "length (strip (take n m)) \<le> length (take n m)" by (rule length_strip)
  also have "\<dots> \<le> n" by simp
  finally show ?thesis
    unfolding safe_filename_len_def Let_def truncate_take m_def .
qed

lemma safe_filename_len_stripped:
  "\<not> leading_whitespace (safe_filename_len str n)"
  "\<not> trailing_whitespace (safe_filename_len str n)"
  unfolding safe_filename_len_def Let_def
  by (rule strip_no_leading, rule strip_no_trailing)

text \<open>
  C10. For every input string, \<open>safe_filename\<close> returns at most 100 characters, all of them
  in the safe set (ASCII letters, digits, \<open>-\<close>, \<open>_\<close>, \<open>.\<close> and space), with no white space
  at either end; the function is not injective: two distinct titles can get the same name.
\<close>

theorem safe_filename_bounded_safe_stripped:
  "length (safe_filename str) \<le> 100
   \<and> set (safe_filename str) \<subseteq> set safe_chars
   \<and> \<not> leading_whitespace (safe_filename str)
   \<and> \<not> trailing_whitespace (safe_filename str)
   \<and> \<not> inj safe_filename"
proof (intro conjI)
  show "length (safe_filename str) \<le> 100"
    unfolding safe_filename_def by (rule length_safe_filename_len)
  show "set (safe_filename str) \<subseteq> set safe_chars"
    unfolding safe_filename_def by (rule set_safe_filename_len)
  show "\<not> leading_whitespace (safe_filename str)"
    unfolding safe_filename_def by (rule safe_filename_len_stripped)
  show "\<not> trailing_whitespace (safe_filename str)"
    unfolding safe_filename_def by (rule safe_filename_len_stripped)
  have "safe_filename ''a/b'' = safe_filename ''a_b''"
    by (simp add: safe_filename_def safe_filename_len_def strip_def isspace_def safe_chars_def)
  then have "inj safe_filename \<Longrightarrow> ''a/b'' = ''a_b''"
    by (rule injD [rotated])
  then show "\<not> inj safe_filename"
    by auto
qed

section \<open>The derived file name\<close>

text \<open>
  C9. The derived path is a function of the date (the first ten characters of
  \<open>issueDate\<close>), the congress, the volume, the issue number and the title alone: two
  descriptors that agree on these give the same path, whatever else differs and whatever the
  state of the updater is, so the presence check on the same files gives the same answer.
\<close>

theorem artifact_filename_deterministic:
  assumes "take 10 (issueDate i1) = take 10 (issueDate i2)"
    and "congress i1 = congress i2"
    and "volumeNumber i1 = volumeNumber i2"
    and "issueNumber i1 = issueNumber i2"
    and "files s1 = files s2"
  shows "artifact_filename output_dir i1 ttl = artifact_filename output_dir i2 ttl
       \<and> (artifact_filename output_dir i1 ttl \<in> files s1
            \<longleftrightarrow> artifact_filename output_dir i2 ttl \<in> files s2)"
  using assms by (simp add: artifact_filename_def congress_dir_def)

theorem artifact_filename_deterministic_witness:
  "take 10 ''2024-03-12T04:00:00Z'' = take 10 ''2024-03-12T09:30:00Z''
   \<and> artifact_filename ''congressional_records''
        \<lparr>congress = 118, volumeNumber = 170, issueNumber = 45,
         issueDate = ''2024-03-12T04:00:00Z''\<rparr> ''Senate/Floor''
     = artifact_filename ''congressional_records''
        \<lparr>congress = 118, volumeNumber = 170, issueNumber = 45,
         issueDate = ''2024-03-12T09:30:00Z''\<rparr> ''Senate/Floor''
   \<and> artifact_filename ''congressional_records''
        \<lparr>congress = 118, volumeNumber = 170, issueNumber = 45,
         issueDate = ''2024-03-12T04:00:00Z''\<rparr> ''Senate/Floor''
     = ''congressional_records/congress_118/2024-03-12_c118_v170_i45_Senate_Floor.html''"
proof -
  have name: "artifact_filename ''congressional_records''
        \<lparr>congress = 118, volumeNumber = 170, issueNumber = 45,
         issueDate = ''2024-03-12T09:30:00Z''\<rparr> ''Senate/Floor''
     = ''congressional_records/congress_118/2024-03-12_c118_v170_i45_Senate_Floor.html''"
    by code_simp
  show ?thesis
    using artifact_filename_deterministic [of
        "\<lparr>congress = 118, volumeNumber = 170, issueNumber = 45,
          issueDate = ''2024-03-12T04:00:00Z''\<rparr>"
        "\<lparr>congress = 118, volumeNumber = 170, issueNumber = 45,
          issueDate = ''2024-03-12T09:30:00Z''\<rparr>"
        "example_state [''key-1''] []" "example_state [''key-2''] []"
        "''congressional_records''" "''Senate/Floor''"] name
    by (simp add: example_state_def)
qed

section \<open>Runs without an interrupt\<close>

lemma not_interrupted: "interrupt_at env = None \<Longrightarrow> \<not> interrupted env s"
  by (simp add: interrupted_def)

lemma session_get_run:
  "interrupt_at env = None \<Longrightarrow>
   session_get env s = (Inr (net env (sent s)), s\<lparr>ops := ops s + 1, sent := sent s + 1\<rparr>)"
  by (simp add: session_get_def not_interrupted)

lemma time_sleep_run:
  "interrupt_at env = None \<Longrightarrow>
   time_sleep env w s = (Inr (), s\<lparr>ops := ops s + 1, slept := slept s @ [w]\<rparr>)"
  by (simp add: time_sleep_def not_interrupted)

lemma write_file_run:
  "interrupt_at env = None \<Longrightarrow>
   write_file env p s = (Inr (), s\<lparr>ops := ops s + 2, files := insert p (files s),
                                   unwritten := unwritten s - {p}\<rparr>)"
  by (simp add: write_file_def open_for_writing_def write_and_close_def not_interrupted
      interrupted_def)

lemma count_request_fields:
  "sent (count_request period s) = sent s"
  "ops (count_request period s) = ops s"
  "api_keys (count_request period s) = api_keys s"
  "files (count_request period s) = files s"
  "unwritten (count_request period s) = unwritten s"
  "slept (count_request period s) = slept s"
  "consecutive_existing_issues (count_request period s) = consecutive_existing_issues s"
  "request_count (count_request period s) = request_count s + 1"
  "key_index (count_request period s) =
     (if (request_count s + 1) mod period = 0
      then (key_index s + 1) mod length (api_keys s) else key_index s)"
  by (simp_all add: count_request_def Let_def get_next_api_key_def)

lemma after_429_fields:
  "sent (after_429 period attempt s) = sent s + 1"
  "api_keys (after_429 period attempt s) = api_keys s"
  "files (after_429 period attempt s) = files s"
  "slept (after_429 period attempt s) =
     (if length (api_keys s) > 1 then slept s
      else slept s @ [if attempt \<le> 5 then min (2 ^ attempt) 60 else 60])"
  by (simp_all add: after_429_def Let_def get_next_api_key_def count_request_fields)

lemma request_attempt_429:
  assumes "interrupt_at env = None" "net env (sent s) = Status429"
  shows "request_attempt env attempt s = (Inr Retry, after_429 4 attempt s)"
  using assms
  by (simp add: request_attempt_def Let_def session_get_run handle_429_error_def time_sleep_run
      after_429_def count_request_fields)

lemma download_attempt_429:
  assumes "interrupt_at env = None" "net env (sent s) = Status429"
  shows "download_attempt env f m attempt s = (Inr Retry, after_429 10 attempt s)"
  using assms
  by (simp add: download_attempt_def Let_def session_get_run handle_429_error_def time_sleep_run
      after_429_def count_request_fields)

lemma request_attempt_200:
  assumes "interrupt_at env = None" "net env (sent s) = Status200 data"
  shows "\<exists>s'. request_attempt env attempt s = (Inr (Return (Some data)), s')
           \<and> slept s' = slept s \<and> files s' = files s \<and> sent s' = sent s + 1"
  using assms
  by (simp add: request_attempt_def session_get_run count_request_fields)

lemma download_attempt_200:
  assumes "interrupt_at env = None" "net env (sent s) = Status200 data"
  shows "\<exists>s'. download_attempt env f m attempt s = (Inr (Return True), s')
           \<and> slept s' = slept s \<and> files s' = insert f (files s) \<and> sent s' = sent s + 1"
  using assms
  by (simp add: download_attempt_def session_get_run write_file_run count_request_fields)

text \<open>
  A listing request that is answered \<open>n\<close> times with status 429 and then with a document
  returns that document; with a single key it has slept the backoff waits of the attempts
  \<open>attempt, ..., attempt + n - 1\<close>.
\<close>

lemma make_request_loop_429s:
  assumes "interrupt_at env = None"
  shows "(\<forall>k<n. net env (sent s + k) = Status429) \<Longrightarrow> net env (sent s + n) = Status200 data \<Longrightarrow>
         \<exists>s'. make_request_loop env attempt s = Some (Inr (Some data), s')
            \<and> sent s' = sent s + n + 1
            \<and> slept s' = slept s @ (if length (api_keys s) > 1 then []
                 else map (\<lambda>k. if k \<le> 5 then min (2 ^ k) 60 else 60) [attempt..<attempt + n])"
proof (induction n arbitrary: s attempt)
  case 0
  then have "net env (sent s) = Status200 data" by simp
  from request_attempt_200 [OF assms this, of attempt]
  obtain s' where "request_attempt env attempt s = (Inr (Return (Some data)), s')"
    "slept s' = slept s" "sent s' = sent s + 1" by blast
  then show ?case
    by (subst make_request_loop.simps) simp
next
  case (Suc n)
  let ?s1 = "after_429 4 attempt s"
  from Suc.prems have first: "net env (sent s) = Status429" by force
  have step: "request_attempt env attempt s = (Inr Retry, ?s1)"
    by (rule request_attempt_429 [OF assms first])
  have "\<forall>k<n. net env (sent ?s1 + k) = Status429"
  proof (intro allI impI)
    fix k assume "k < n"
    then have "Suc k < Suc n" by simp
    with Suc.prems(1) have "net env (sent s + Suc k) = Status429" by blast
    then show "net env (sent ?s1 + k) = Status429"
      by (simp add: after_429_fields)
  qed
  moreover have "net env (sent ?s1 + n) = Status200 data"
    using Suc.prems(2) by (simp add: after_429_fields)
  ultimately obtain s' where
    run: "make_request_loop env (attempt + 1) ?s1 = Some (Inr (Some data), s')"
    and sent': "sent s' = sent ?s1 + n + 1"
    and slept': "slept s' = slept ?s1 @ (if length (api_keys ?s1) > 1 then []
         else map (\<lambda>k. if k \<le> 5 then min (2 ^ k) 60 else 60) [attempt + 1..<attempt + 1 + n])"
    using Suc.IH [of ?s1 "attempt + 1"] by blast
  have loop: "make_request_loop env attempt s = Some (Inr (Some data), s')"
    using run by (subst make_request_loop.simps) (simp add: step)
  have range: "[attempt..<attempt + Suc n] = attempt # [attempt + 1..<attempt + 1 + n]"
    by (simp add: upt_rec)
  have "slept s' = slept s @ (if length (api_keys s) > 1 then []
         else map (\<lambda>k. if k \<le> 5 then min (2 ^ k) 60 else 60) [attempt..<attempt + Suc n])"
    unfolding slept' range by (simp add: after_429_fields)
  with loop sent' show ?case
    by (simp add: after_429_fields)
qed

lemma download_loop_429s_success:
  assumes "interrupt_at env = None"
  shows "(\<forall>k<n. net env (sent s + k) = Status429) \<Longrightarrow> net env (sent s + n) = Status200 data \<Longrightarrow>
         attempt + n \<le> m \<Longrightarrow>
         \<exists>s'. download_loop env f m attempt s = (Inr (Some True), s') \<and> f \<in> files s'"
proof (induction n arbitrary: s attempt)
  case 0
  then have "net env (sent s) = Status200 data" by simp
  from download_attempt_200 [OF assms this, of f m attempt]
  obtain s' where "download_attempt env f m attempt s = (Inr (Return True), s')"
    "files s' = insert f (files s)" by blast
  with 0 show ?case
    by (subst download_loop.simps) simp
next
  case (Suc n)
  let ?s1 = "after_429 10 attempt s"
  from Suc.prems have first: "net env (sent s) = Status429" by force
  have step: "download_attempt env f m attempt s = (Inr Retry, ?s1)"
    by (rule download_attempt_429 [OF assms first])
  have "\<forall>k<n. net env (sent ?s1 + k) = Status429"
  proof (intro allI impI)
    fix k assume "k < n"
    then have "Suc k < Suc n" by simp
    with Suc.prems(1) have "net env (sent s + Suc k) = Status429" by blast
    then show "net env (sent ?s1 + k) = Status429"
      by (simp add: after_429_fields)
  qed
  moreover have "net env (sent ?s1 + n) = Status200 data"
    using Suc.prems(2) by (simp add: after_429_fields)
  moreover have "attempt + 1 + n \<le> m" using Suc.prems(3) by simp
  ultimately obtain s' where
    "download_loop env f m (attempt + 1) ?s1 = (Inr (Some True), s')" "f \<in> files s'"
    using Suc.IH [of ?s1 "attempt + 1"] by blast
  moreover have "attempt \<le> m" using Suc.prems(3) by simp
  ultimately show ?case
    by (subst download_loop.simps) (simp add: step)
qed

text \<open>
  When every attempt the loop allows is answered with status 429, the download ends
  without a result and without a file, after exactly the allowed number of requests.
\<close>

lemma download_loop_429s_exhausted:
  assumes "interrupt_at env = None"
  shows "(\<forall>k<n. net env (sent s + k) = Status429) \<Longrightarrow> attempt + n = m + 1 \<Longrightarrow>
         \<exists>s'. download_loop env f m attempt s = (Inr None, s') \<and> sent s' = sent s + n
            \<and> files s' = files s"
proof (induction n arbitrary: s attempt)
  case 0
  then have "\<not> attempt \<le> m" by simp
  then show ?case
    by (subst download_loop.simps) simp
next
  case (Suc n)
  let ?s1 = "after_429 10 attempt s"
  from Suc.prems have first: "net env (sent s) = Status429" by force
  have step: "download_attempt env f m attempt s = (Inr Retry, ?s1)"
    by (rule download_attempt_429 [OF assms first])
  have "\<forall>k<n. net env (sent ?s1 + k) = Status429"
  proof (intro allI impI)
    fix k assume "k < n"
    then have "Suc k < Suc n" by simp
    with Suc.prems(1) have "net env (sent s + Suc k) = Status429" by blast
    then show "net env (sent ?s1 + k) = Status429"
      by (simp add: after_429_fields)
  qed
  moreover have "attempt + 1 + n = m + 1" using Suc.prems(2) by simp
  ultimately obtain s' where
    "download_loop env f m (attempt + 1) ?s1 = (Inr None, s')" "sent s' = sent ?s1 + n"
    "files s' = files ?s1"
    using Suc.IH [of ?s1 "attempt + 1"] by blast
  moreover have "attempt \<le> m" using Suc.prems(2) by simp
  ultimately show ?case
    by (subst download_loop.simps) (simp add: step after_429_fields)
qed

section \<open>Key rotation and retries\<close>

text \<open>
  C8. With a single key and no interrupt, a listing request that is answered \<open>n\<close> times with
  status 429 before it succeeds has waited, before retry \<open>k\<close>, \<open>min (2 ^ k) 60\<close> units for
  \<open>k \<le> 5\<close> and 60 units for every later retry; three 429 responses give the waits 2, 4, 8.
\<close>

theorem backoff_waits_single_key:
  assumes "length (api_keys s) = 1" and "interrupt_at env = None"
    and "\<forall>k<n. net env (sent s + k) = Status429"
    and "net env (sent s + n) = Status200 data"
  shows "\<exists>s'. make_request env s = Some (Inr (Some data), s')
           \<and> slept s' = slept s @ map (\<lambda>k. if k \<le> 5 then min (2 ^ k) 60 else 60) [1..<n + 1]"
proof -
  from make_request_loop_429s [OF assms(2) assms(3) assms(4), of 1]
  obtain s' where "make_request_loop env 1 s = Some (Inr (Some data), s')"
    and "slept s' = slept s @ (if length (api_keys s) > 1 then []
           else map (\<lambda>k. if k \<le> 5 then min (2 ^ k) 60 else 60) [1..<1 + n])"
    by blast
  with assms(1) show ?thesis
    by (simp add: make_request_def add.commute)
qed

theorem backoff_waits_single_key_witness:
  "length (api_keys (example_state [''key-1''] [])) = 1
   \<and> interrupt_at (example_env (rate_limited 3 empty_document) None) = None
   \<and> net (example_env (rate_limited 3 empty_document) None) 0 = Status429
   \<and> net (example_env (rate_limited 3 empty_document) None) 1 = Status429
   \<and> net (example_env (rate_limited 3 empty_document) None) 2 = Status429
   \<and> net (example_env (rate_limited 3 empty_document) None) 3 = Status200 empty_document
   \<and> (\<exists>s'. make_request (example_env (rate_limited 3 empty_document) None)
               (example_state [''key-1''] []) = Some (Inr (Some empty_document), s')
          \<and> slept s' = [2, 4, 8])"
proof -
  have "[1..<3 + 1] = [1, 2, 3 :: nat]"
    by (simp add: upt_rec)
  then show ?thesis
    using backoff_waits_single_key [of "example_state [''key-1''] []"
        "example_env (rate_limited 3 empty_document) None" 3 empty_document]
    by (simp add: example_state_def example_env_def rate_limited_def)
qed


text \<open>
  C5, as the code has it. Without an interrupt, a listing request retries a 429 response
  however often it comes and returns the document that follows. A download retries it only
  while \<open>attempt \<le> max_retries = 3\<close>: after fewer than three 429 responses it succeeds, but
  three 429 responses in a row end the call without success (Python's \<open>None\<close>) and without a
  fourth request.
\<close>

theorem rate_limit_retries:
  assumes "interrupt_at env = None"
    and "\<forall>k<n. net env (sent s + k) = Status429"
    and "net env (sent s + n) = Status200 data"
  shows "(\<exists>s'. make_request env s = Some (Inr (Some data), s'))
       \<and> (n < 3 \<longrightarrow> (\<exists>s'. download_article_text env f s = (Inr (Some True), s') \<and> f \<in> files s'))
       \<and> (3 \<le> n \<longrightarrow> (\<exists>s'. download_article_text env f s = (Inr None, s')
              \<and> sent s' = sent s + 3 \<and> files s' = files s))"
proof (intro conjI impI)
  from make_request_loop_429s [OF assms, of 1]
  show "\<exists>s'. make_request env s = Some (Inr (Some data), s')"
    unfolding make_request_def by blast
next
  assume "n < 3"
  then have "1 + n \<le> 3" by simp
  from download_loop_429s_success [OF assms this]
  show "\<exists>s'. download_article_text env f s = (Inr (Some True), s') \<and> f \<in> files s'"
    unfolding download_article_text_def .
next
  assume "3 \<le> n"
  with assms(2) have "\<forall>k<3. net env (sent s + k) = Status429" by simp
  from download_loop_429s_exhausted [OF assms(1) this, of 1 3 f]
  show "\<exists>s'. download_article_text env f s = (Inr None, s') \<and> sent s' = sent s + 3
          \<and> files s' = files s"
    unfolding download_article_text_def by simp
qed

theorem rate_limit_retries_witness:
  "interrupt_at (example_env (rate_limited 2 empty_document) None) = None
   \<and> net (example_env (rate_limited 2 empty_document) None) 0 = Status429
   \<and> net (example_env (rate_limited 2 empty_document) None) 1 = Status429
   \<and> net (example_env (rate_limited 2 empty_document) None) 2 = Status200 empty_document
   \<and> (\<exists>s'. make_request (example_env (rate_limited 2 empty_document) None)
               (example_state [''key-1''] []) = Some (Inr (Some empty_document), s'))
   \<and> (\<exists>s'. download_article_text (example_env (rate_limited 2 empty_document) None)
               ''a.html'' (example_state [''key-1''] []) = (Inr (Some True), s')
          \<and> ''a.html'' \<in> files s')"
  using rate_limit_retries [of "example_env (rate_limited 2 empty_document) None" 2
      "example_state [''key-1''] []" empty_document "''a.html''"]
  by (simp add: example_state_def example_env_def rate_limited_def)

text \<open>
  Three 429 responses in a row: the download gives up although the fourth request would
  have been answered, and the caller sees a value that is not \<open>True\<close>.
\<close>

theorem download_gives_up_after_three_429:
  "fst (download_article_text (example_env (rate_limited 3 empty_document) None) ''a.html''
          (example_state [''key-1'', ''key-2''] [])) = Inr None
   \<and> sent (snd (download_article_text (example_env (rate_limited 3 empty_document) None)
          ''a.html'' (example_state [''key-1'', ''key-2''] []))) = 3
   \<and> net (example_env (rate_limited 3 empty_document) None) 3 = Status200 empty_document"
  by code_simp

text \<open>
  C4, as the code has it. There is one request counter, incremented by listing and download
  requests alike; a listing request rotates the key when the counter, after its own
  increment, is a multiple of 4, a download request when it is a multiple of 10.
\<close>

theorem shared_request_counter:
  assumes "interrupt_at env = None" and "net env (sent s) = Status200 data"
  shows "\<exists>s1 s2. make_request env s = Some (Inr (Some data), s1)
           \<and> request_count s1 = request_count s + 1
           \<and> key_index s1 = (if (request_count s + 1) mod 4 = 0
                              then (key_index s + 1) mod length (api_keys s) else key_index s)
           \<and> download_article_text env f s = (Inr (Some True), s2)
           \<and> request_count s2 = request_count s + 1
           \<and> key_index s2 = (if (request_count s + 1) mod 10 = 0
                              then (key_index s + 1) mod length (api_keys s) else key_index s)"
proof -
  have "request_attempt env 1 s = (Inr (Return (Some data)),
      (count_request 4 s)\<lparr>ops := ops s + 1, sent := sent s + 1\<rparr>)"
    using assms by (simp add: request_attempt_def session_get_run count_request_fields)
  then have listing: "make_request env s = Some (Inr (Some data),
      (count_request 4 s)\<lparr>ops := ops s + 1, sent := sent s + 1\<rparr>)"
    unfolding make_request_def by (subst make_request_loop.simps) simp
  have "download_attempt env f 3 1 s = (Inr (Return True),
      (count_request 10 s)\<lparr>ops := ops s + 3, sent := sent s + 1, files := insert f (files s),
        unwritten := unwritten s - {f}\<rparr>)"
    using assms
    by (simp add: download_attempt_def session_get_run write_file_run count_request_fields)
  then have download: "download_article_text env f s = (Inr (Some True),
      (count_request 10 s)\<lparr>ops := ops s + 3, sent := sent s + 1, files := insert f (files s),
        unwritten := unwritten s - {f}\<rparr>)"
    unfolding download_article_text_def by (subst download_loop.simps) simp
  show ?thesis
    unfolding listing download by (simp add: count_request_fields)
qed

theorem shared_request_counter_witness:
  "interrupt_at (example_env (rate_limited 0 empty_document) None) = None
   \<and> net (example_env (rate_limited 0 empty_document) None) 0 = Status200 empty_document
   \<and> (\<exists>s1 s2. make_request (example_env (rate_limited 0 empty_document) None)
                 ((example_state [''key-1'', ''key-2''] [])\<lparr>request_count := 9\<rparr>)
               = Some (Inr (Some empty_document), s1)
            \<and> request_count s1 = 10 \<and> key_index s1 = 0
            \<and> download_article_text (example_env (rate_limited 0 empty_document) None) ''a.html''
                 ((example_state [''key-1'', ''key-2''] [])\<lparr>request_count := 9\<rparr>)
               = (Inr (Some True), s2)
            \<and> request_count s2 = 10 \<and> key_index s2 = 1)"
  using shared_request_counter [of "example_env (rate_limited 0 empty_document) None"
      "(example_state [''key-1'', ''key-2''] [])\<lparr>request_count := 9\<rparr>" empty_document
      "''a.html''"]
  by (simp add: example_state_def example_env_def rate_limited_def)

text \<open>
  Nine downloads on a new updater with two keys leave the first key current; the same nine
  downloads after one listing request end on the second key, because the ninth download is
  the tenth request.
\<close>

theorem download_rotation_depends_on_listing_calls:
  "key_index (downloads_in_a_row (example_env (rate_limited 0 empty_document) None)
        (replicate 9 ''a.html'') (example_state [''key-1'', ''key-2''] [])) = 0
   \<and> make_request (example_env (rate_limited 0 empty_document) None)
        (example_state [''key-1'', ''key-2''] [])
       = Some (Inr (Some empty_document),
           (example_state [''key-1'', ''key-2''] [])\<lparr>request_count := 1, sent := 1, ops := 1\<rparr>)
   \<and> key_index (downloads_in_a_row (example_env (rate_limited 0 empty_document) None)
        (replicate 9 ''a.html'')
        ((example_state [''key-1'', ''key-2''] [])\<lparr>request_count := 1, sent := 1, ops := 1\<rparr>))
       = 1"
  by code_simp

section \<open>What the operations leave alone\<close>

lemma advances_refl: "advances env s s"
  by (simp add: advances_def)

lemma advances_trans: "advances env s s' \<Longrightarrow> advances env s' s'' \<Longrightarrow> advances env s s''"
  unfolding advances_def by (intro conjI) (simp, blast, simp)

lemma proceeds_refl: "proceeds env s s"
  by (simp add: proceeds_def advances_refl)

lemma proceeds_trans: "proceeds env s s' \<Longrightarrow> proceeds env s' s'' \<Longrightarrow> proceeds env s s''"
  unfolding proceeds_def using advances_trans by auto

lemma time_sleep_proceeds: "time_sleep env w s = (r, s') \<Longrightarrow> proceeds env s s'"
  by (auto simp: time_sleep_def proceeds_def advances_def interrupted_def split: if_splits)

lemma session_get_proceeds: "session_get env s = (r, s') \<Longrightarrow> proceeds env s s'"
  by (auto simp: session_get_def proceeds_def advances_def interrupted_def split: if_splits)

lemma write_file_proceeds: "write_file env p s = (r, s') \<Longrightarrow> proceeds env s s'"
  by (auto simp: write_file_def open_for_writing_def write_and_close_def proceeds_def
      advances_def split: if_splits)

lemma get_next_api_key_proceeds: "proceeds env s (get_next_api_key s)"
  by (simp add: get_next_api_key_def proceeds_def advances_def)

lemma count_request_proceeds: "proceeds env s (count_request period s)"
  by (simp add: count_request_def Let_def get_next_api_key_def proceeds_def advances_def)

lemma handle_429_error_proceeds: "handle_429_error env attempt s = (r, s') \<Longrightarrow> proceeds env s s'"
  unfolding handle_429_error_def Let_def
  by (auto split: if_splits intro: get_next_api_key_proceeds time_sleep_proceeds)

lemma request_attempt_proceeds:
  assumes "request_attempt env attempt s = (r, s')"
  shows "proceeds env s s'"
proof -
  have first: "proceeds env s (count_request 4 s)"
    by (rule count_request_proceeds)
  obtain g s3 where get: "session_get env (count_request 4 s) = (g, s3)"
    by (cases "session_get env (count_request 4 s)")
  then have second: "proceeds env (count_request 4 s) s3"
    by (rule session_get_proceeds)
  have "proceeds env s3 s'"
    using assms get unfolding request_attempt_def
    by (auto split: sum.splits response.splits if_splits prod.splits
        intro: proceeds_refl handle_429_error_proceeds time_sleep_proceeds)
  with first second show ?thesis
    by (blast intro: proceeds_trans)
qed

lemma make_request_loop_proceeds:
  "make_request_loop env attempt s = Some (r, s') \<Longrightarrow> proceeds env s s'"
proof -
  have "proceeds env s (snd y)" if "make_request_loop env attempt s = Some y" for y
    using that
  proof (induction env attempt s y rule: make_request_loop.raw_induct [rotated 1, consumes 1])
    case (1 loop env attempt s y)
    obtain r1 s1 where step: "request_attempt env attempt s = (r1, s1)"
      by (cases "request_attempt env attempt s")
    then have first: "proceeds env s s1"
      by (rule request_attempt_proceeds)
    show ?case
    proof (cases r1)
      case (Inl e)
      with 1(2) step first show ?thesis by auto
    next
      case (Inr it)
      show ?thesis
      proof (cases it)
        case Retry
        with 1(2) step Inr have "loop env (attempt + 1) s1 = Some y" by simp
        then have "proceeds env s1 (snd y)" by (rule 1(1))
        with first show ?thesis by (rule proceeds_trans)
      next
        case (Return v)
        with 1(2) step Inr first show ?thesis by auto
      qed
    qed
  qed
  then show "make_request_loop env attempt s = Some (r, s') \<Longrightarrow> proceeds env s s'"
    by fastforce
qed

lemma make_request_proceeds: "make_request env s = Some (r, s') \<Longrightarrow> proceeds env s s'"
  unfolding make_request_def by (rule make_request_loop_proceeds)

lemma get_articles_for_issue_proceeds:
  "get_articles_for_issue env v i s = Some (r, s') \<Longrightarrow> proceeds env s s'"
  unfolding get_articles_for_issue_def
  by (auto split: option.splits sum.splits prod.splits dest: make_request_proceeds)

lemma download_attempt_proceeds:
  assumes "download_attempt env f m attempt s = (r, s')"
  shows "proceeds env s s'"
proof -
  have first: "proceeds env s (count_request 10 s)"
    by (rule count_request_proceeds)
  obtain g s3 where get: "session_get env (count_request 10 s) = (g, s3)"
    by (cases "session_get env (count_request 10 s)")
  then have second: "proceeds env (count_request 10 s) s3"
    by (rule session_get_proceeds)
  have "proceeds env s3 s'"
    using assms get unfolding download_attempt_def
    by (auto split: sum.splits response.splits if_splits prod.splits
        intro: proceeds_refl handle_429_error_proceeds time_sleep_proceeds write_file_proceeds)
  with first second show ?thesis
    by (blast intro: proceeds_trans)
qed

lemma download_loop_proceeds:
  "download_loop env f m attempt s = (r, s') \<Longrightarrow> proceeds env s s'"
proof (induction env f m attempt s arbitrary: r s' rule: download_loop.induct)
  case (1 env f m attempt s)
  show ?case
  proof (cases "attempt \<le> m")
    case False
    with 1(2) show ?thesis
      by (simp add: download_loop.simps [of env f m attempt s] proceeds_refl)
  next
    case True
    obtain r1 s1 where step: "download_attempt env f m attempt s = (r1, s1)"
      by (cases "download_attempt env f m attempt s")
    then have first: "proceeds env s s1"
      by (rule download_attempt_proceeds)
    show ?thesis
    proof (cases r1)
      case (Inl e)
      with 1(2) step True first show ?thesis
        by (simp add: download_loop.simps [of env f m attempt s])
    next
      case (Inr it)
      show ?thesis
      proof (cases it)
        case Retry
        with 1(2) step Inr True
        have "download_loop env f m (attempt + 1) s1 = (r, s')"
          by (simp add: download_loop.simps [of env f m attempt s])
        with 1(1) [OF True step [symmetric] Inr Retry] have "proceeds env s1 s'" by simp
        with first show ?thesis by (rule proceeds_trans)
      next
        case (Return v)
        with 1(2) step Inr True first show ?thesis
          by (simp add: download_loop.simps [of env f m attempt s])
      qed
    qed
  qed
qed

lemma download_article_text_proceeds:
  "download_article_text env f s = (r, s') \<Longrightarrow> proceeds env s s'"
  unfolding download_article_text_def by (rule download_loop_proceeds)

lemma download_section_articles_proceeds:
  "download_section_articles env od iss i sas acc s = (r, s') \<Longrightarrow> proceeds env s s'"
proof (induction sas arbitrary: i acc s r s')
  case Nil
  then show ?case by (simp add: proceeds_refl)
next
  case (Cons sa sas)
  obtain d n where acc: "acc = (d, n)" by (cases acc)
  let ?f = "artifact_filename od iss (title_of i sa)"
  show ?case
  proof (cases "truthy (formatted_text_url (text_items sa)) \<and> ?f \<notin> files s")
    case False
    with Cons.prems acc
    have "\<exists>acc'. download_section_articles env od iss (i + 1) sas acc' s = (r, s')"
      by (auto simp: Let_def split: if_splits)
    with Cons.IH show ?thesis by blast
  next
    case True
    obtain r1 s1 where dl: "download_article_text env ?f s = (r1, s1)"
      by (cases "download_article_text env ?f s")
    then have first: "proceeds env s s1"
      by (rule download_article_text_proceeds)
    show ?thesis
    proof (cases r1)
      case (Inl e)
      with Cons.prems acc True dl first show ?thesis
        by (simp add: Let_def)
    next
      case (Inr b)
      show ?thesis
      proof (cases "b = Some True")
        case False
        with Cons.prems acc True dl Inr
        have "download_section_articles env od iss (i + 1) sas (d, n) s1 = (r, s')"
          by (simp add: Let_def)
        with Cons.IH have "proceeds env s1 s'" by blast
        with first show ?thesis by (rule proceeds_trans)
      next
        case yes: True
        obtain r2 s2 where wr: "write_file env (with_suffix ?f ''.json'') s1 = (r2, s2)"
          by (cases "write_file env (with_suffix ?f ''.json'') s1")
        then have second: "proceeds env s1 s2"
          by (rule write_file_proceeds)
        have "proceeds env s2 s'"
        proof (cases r2)
          case (Inl e)
          with Cons.prems acc True dl Inr yes wr show ?thesis
            by (simp add: Let_def proceeds_refl)
        next
          case (Inr u)
          with Cons.prems acc True dl \<open>r1 = Inr b\<close> yes wr
          have "download_section_articles env od iss (i + 1) sas (d + 1, n + 1) s2 = (r, s')"
            by (simp add: Let_def)
          with Cons.IH show ?thesis by blast
        qed
        with first second show ?thesis
          by (blast intro: proceeds_trans)
      qed
    qed
  qed
qed

lemma download_articles_proceeds:
  "download_articles env od iss arts acc s = (r, s') \<Longrightarrow> proceeds env s s'"
proof (induction arts arbitrary: acc s r s')
  case Nil
  then show ?case by (simp add: proceeds_refl)
next
  case (Cons a arts)
  obtain r1 s1 where
    inner: "download_section_articles env od iss 0 (sectionArticles a) acc s = (r1, s1)"
    by (cases "download_section_articles env od iss 0 (sectionArticles a) acc s")
  then have first: "proceeds env s s1"
    by (rule download_section_articles_proceeds)
  show ?case
  proof (cases r1)
    case (Inl e)
    with Cons.prems inner first show ?thesis by simp
  next
    case (Inr acc')
    with Cons.prems inner have "download_articles env od iss arts acc' s1 = (r, s')"
      by simp
    with Cons.IH have "proceeds env s1 s'" by blast
    with first show ?thesis by (rule proceeds_trans)
  qed
qed

lemma check_issue_completeness_proceeds:
  "check_issue_completeness env iss od s = Some (r, s') \<Longrightarrow> proceeds env s s'"
  unfolding check_issue_completeness_def
  by (auto split: if_splits option.splits sum.splits prod.splits
      intro: proceeds_refl dest: get_articles_for_issue_proceeds)

section \<open>Properties of the completeness check\<close>

lemma check_section_articles_counts:
  "check_section_articles fs od iss i sas (t, e) =
     (t + length (filter downloadable sas),
      e + length (filter (artifact_present fs od iss) (enumerate i sas)))"
  by (induction sas arbitrary: i t e) (simp_all add: downloadable_def artifact_present_def)

lemma check_articles_counts:
  "check_articles fs od iss arts (t, e) =
     (t + length (filter downloadable (concat (map sectionArticles arts))),
      e + length (filter (artifact_present fs od iss) (indexed_section_articles arts)))"
  by (induction arts arbitrary: t e)
    (simp_all add: check_section_articles_counts indexed_section_articles_def)

text \<open>
  C7, as the code has it. The issue is reported complete exactly when the reported total is
  positive and equals the reported number of existing artifacts, so never with a total of
  zero. When the directory of the congress is missing, both counts are reported as zero and
  no request is made. Otherwise the total counts the section articles of the listing whose
  first \<open>Formatted Text\<close> item carries a non-empty URL, and the existing count those among
  them whose artifact is on disk.
\<close>

theorem completeness_check_counts:
  assumes "check_issue_completeness env iss od s
             = Some (Inr (is_complete, existing_count, total_count), s')"
  shows "(is_complete \<longleftrightarrow> total_count > 0 \<and> existing_count = total_count)
       \<and> (total_count = 0 \<longrightarrow> \<not> is_complete)
       \<and> (congress_dir od iss \<notin> files s \<longrightarrow> total_count = 0 \<and> existing_count = 0 \<and> s' = s)
       \<and> (congress_dir od iss \<in> files s \<longrightarrow>
            (\<exists>arts. get_articles_for_issue env (volumeNumber iss) (issueNumber iss) s
                      = Some (Inr arts, s')
               \<and> total_count = length (filter downloadable (concat (map sectionArticles arts)))
               \<and> existing_count
                   = length (filter (artifact_present (files s') od iss)
                       (indexed_section_articles arts))))"
proof (cases "congress_dir od iss \<in> files s")
  case False
  with assms show ?thesis
    by (simp add: check_issue_completeness_def)
next
  case True
  with assms obtain arts where
    arts: "get_articles_for_issue env (volumeNumber iss) (issueNumber iss) s = Some (Inr arts, s')"
    and res: "check_articles (files s') od iss arts (0, 0) = (total_count, existing_count)"
    and compl: "is_complete = (total_count > 0 \<and> existing_count = total_count)"
    by (auto simp: check_issue_completeness_def split: option.splits sum.splits prod.splits)
  from res have "total_count = length (filter downloadable (concat (map sectionArticles arts)))"
    and "existing_count
           = length (filter (artifact_present (files s') od iss) (indexed_section_articles arts))"
    by (simp_all add: check_articles_counts)
  with arts compl True show ?thesis
    by simp
qed

theorem completeness_check_counts_witness:
  "check_issue_completeness
       (example_env (rate_limited 0 (articles_document
          [\<lparr>sectionArticles = [senate_section, section_without_url, house_section]\<rparr>])) None)
       (example_issue 45) ''congressional_records''
       (example_state [''key-1'']
          [''congressional_records'', ''congressional_records/congress_118'',
           ''congressional_records/congress_118/2024-03-12_c118_v170_i45_House.html''])
     = Some (Inr (False, 1, 2),
         (example_state [''key-1'']
            [''congressional_records'', ''congressional_records/congress_118'',
             ''congressional_records/congress_118/2024-03-12_c118_v170_i45_House.html''])
           \<lparr>request_count := 1, sent := 1, ops := 1\<rparr>)
   \<and> (False \<longleftrightarrow> (2::nat) > 0 \<and> (1::nat) = 2)
   \<and> 2 = length (filter downloadable [senate_section, section_without_url, house_section])"
proof -
  have run: "check_issue_completeness
       (example_env (rate_limited 0 (articles_document
          [\<lparr>sectionArticles = [senate_section, section_without_url, house_section]\<rparr>])) None)
       (example_issue 45) ''congressional_records''
       (example_state [''key-1'']
          [''congressional_records'', ''congressional_records/congress_118'',
           ''congressional_records/congress_118/2024-03-12_c118_v170_i45_House.html''])
     = Some (Inr (False, 1, 2),
         (example_state [''key-1'']
            [''congressional_records'', ''congressional_records/congress_118'',
             ''congressional_records/congress_118/2024-03-12_c118_v170_i45_House.html''])
           \<lparr>request_count := 1, sent := 1, ops := 1\<rparr>)"
    by code_simp
  have "2 = length (filter downloadable [senate_section, section_without_url, house_section])"
    by code_simp
  with run completeness_check_counts [OF run] show ?thesis
    by simp
qed

text \<open>
  A section article whose \<open>Formatted Text\<close> variant has no URL is not counted: the total is
  zero although the listing has one section article with such a variant.
\<close>

theorem formatted_text_without_url_not_counted:
  "map_option fst (check_issue_completeness
       (example_env (rate_limited 0 (articles_document
          [\<lparr>sectionArticles = [section_without_url]\<rparr>])) None)
       (example_issue 45) ''congressional_records''
       (example_state [''key-1'']
          [''congressional_records'', ''congressional_records/congress_118'']))
     = Some (Inr (False, 0, 0))
   \<and> length (filter has_formatted_text [section_without_url]) = 1"
  by code_simp

section \<open>The stop heuristic\<close>

lemma process_issue_stops:
  assumes "check_issue_completeness env iss od s = Some (Inr (True, e, t), c)"
    and "stop_threshold \<le> consecutive_existing_issues s + 1"
  shows "process_issue env iss od s
           = Some (Inr (0, True),
               c\<lparr>consecutive_existing_issues := consecutive_existing_issues s + 1\<rparr>)"
proof -
  from assms(1) have "proceeds env s c"
    by (rule check_issue_completeness_proceeds)
  then have "consecutive_existing_issues c = consecutive_existing_issues s"
    by (simp add: proceeds_def)
  with assms show ?thesis
    by (simp add: process_issue_def)
qed

text \<open>
  Below the threshold, and for every incomplete issue, \<open>process_issue\<close> goes through the
  download part, which does not touch the counter.
\<close>

lemma process_issue_goes_on:
  assumes "check_issue_completeness env iss od s = Some (Inr (b, e, t), c)"
    and "\<not> (b \<and> stop_threshold \<le> consecutive_existing_issues s + 1)"
    and "process_issue env iss od s = Some (r, s')"
  shows "consecutive_existing_issues s'
           = (if b then consecutive_existing_issues s + 1 else 0)
       \<and> (\<forall>x. r = Inr x \<longrightarrow> \<not> snd x)"
proof -
  from assms(1) have "proceeds env s c"
    by (rule check_issue_completeness_proceeds)
  then have same: "consecutive_existing_issues c = consecutive_existing_issues s"
    by (simp add: proceeds_def)
  define s2 where "s2 = (if b
      then c\<lparr>consecutive_existing_issues := consecutive_existing_issues c + 1\<rparr>
      else c\<lparr>consecutive_existing_issues := 0\<rparr>)"
  define s3 where "s3 = s2\<lparr>files := insert (congress_dir od iss) (files s2)\<rparr>"
  have counter: "consecutive_existing_issues s3
                   = (if b then consecutive_existing_issues s + 1 else 0)"
    by (simp add: s3_def s2_def same)
  have below: "\<not> (b \<and> stop_threshold \<le> consecutive_existing_issues s2)"
    using assms(2) by (simp add: s2_def same)
  have unfolded: "process_issue env iss od s =
      (case get_articles_for_issue env (volumeNumber iss) (issueNumber iss) s3 of
         None \<Rightarrow> None
       | Some (Inl e, s4) \<Rightarrow> Some (Inl e, s4)
       | Some (Inr arts, s4) \<Rightarrow>
           (case download_articles env od iss arts (0, 0) s4 of
              (Inl e, s5) \<Rightarrow> Some (Inl e, s5)
            | (Inr (downloaded_count, newly_downloaded), s5) \<Rightarrow>
                Some (Inr (newly_downloaded, False), s5)))"
    using below unfolding process_issue_def assms(1) s3_def s2_def
    by (simp add: Let_def)
  from assms(3) obtain ra s4 where
    listing: "get_articles_for_issue env (volumeNumber iss) (issueNumber iss) s3 = Some (ra, s4)"
    unfolding unfolded by (auto split: option.splits)
  then have p34: "proceeds env s3 s4"
    by (rule get_articles_for_issue_proceeds)
  show ?thesis
  proof (cases ra)
    case (Inl ex)
    with assms(3) listing have "s' = s4" "r = Inl ex"
      unfolding unfolded by simp_all
    with p34 counter show ?thesis
      by (simp add: proceeds_def)
  next
    case (Inr arts)
    obtain rd s5 where dl: "download_articles env od iss arts (0, 0) s4 = (rd, s5)"
      by (cases "download_articles env od iss arts (0, 0) s4")
    then have p45: "proceeds env s4 s5"
      by (rule download_articles_proceeds)
    from assms(3) listing Inr dl have "s' = s5" "\<forall>x. r = Inr x \<longrightarrow> \<not> snd x"
      unfolding unfolded by (auto split: sum.splits prod.splits)
    with p34 p45 counter show ?thesis
      by (simp add: proceeds_def)
  qed
qed

text \<open>
  C1. On a new updater, when the three newest issues are each found complete at the moment
  they are evaluated, \<open>process_issue\<close> signals the stop at the third one, the loop of
  \<open>main\<close> ends there with three issues processed, and its result and final state are those
  reached right after the third completeness check, whatever the fourth and later issues
  are: they are never evaluated. An issue found incomplete sets the counter of consecutive
  complete issues to zero.
\<close>

theorem stop_after_three_complete:
  assumes "consecutive_existing_issues s0 = 0"
    and "check_issue_completeness env i1 od s0 = Some (Inr (True, e1, t1), c1)"
    and "process_issue env i1 od s0 = Some (Inr r1, s1)"
    and "check_issue_completeness env i2 od s1 = Some (Inr (True, e2, t2), c2)"
    and "process_issue env i2 od s1 = Some (Inr r2, s2)"
    and "check_issue_completeness env i3 od s2 = Some (Inr (True, e3, t3), c3)"
  shows "process_issue env i3 od s2
           = Some (Inr (0, True), c3\<lparr>consecutive_existing_issues := 3\<rparr>)
       \<and> main_loop env od (i1 # i2 # i3 # i4 # rest) (0, 0) s0
           = Some ((fst r1 + fst r2, 3), c3\<lparr>consecutive_existing_issues := 3\<rparr>)
       \<and> (\<forall>i s e t c r s'.
             check_issue_completeness env i od s = Some (Inr (False, e, t), c) \<longrightarrow>
             process_issue env i od s = Some (r, s') \<longrightarrow>
             consecutive_existing_issues s' = 0)"
proof (intro conjI allI impI)
  have first: "consecutive_existing_issues s1 = 1 \<and> \<not> snd r1"
    using process_issue_goes_on [OF assms(2) _ assms(3)] assms(1)
    by (simp add: stop_threshold_def)
  have second: "consecutive_existing_issues s2 = 2 \<and> \<not> snd r2"
    using process_issue_goes_on [OF assms(4) _ assms(5)] first
    by (simp add: stop_threshold_def)
  show third: "process_issue env i3 od s2
           = Some (Inr (0, True), c3\<lparr>consecutive_existing_issues := 3\<rparr>)"
    using process_issue_stops [OF assms(6)] second
    by (simp add: stop_threshold_def)
  obtain n1 b1 where r1: "r1 = (n1, b1)" by (cases r1)
  obtain n2 b2 where r2: "r2 = (n2, b2)" by (cases r2)
  from first second r1 r2 have "\<not> b1" "\<not> b2" by simp_all
  then show "main_loop env od (i1 # i2 # i3 # i4 # rest) (0, 0) s0
           = Some ((fst r1 + fst r2, 3), c3\<lparr>consecutive_existing_issues := 3\<rparr>)"
    using assms(3) assms(5) third r1 r2 by simp
next
  fix i s e t c r s'
  assume "check_issue_completeness env i od s = Some (Inr (False, e, t), c)"
    and "process_issue env i od s = Some (r, s')"
  from process_issue_goes_on [OF this(1) _ this(2)]
  show "consecutive_existing_issues s' = 0" by simp
qed

theorem stop_after_three_complete_witness:
  "consecutive_existing_issues three_complete = 0
   \<and> check_issue_completeness senate_env (example_issue 45) ''congressional_records''
        three_complete
       = Some (Inr (True, 1, 1), three_complete\<lparr>request_count := 1, sent := 1, ops := 1\<rparr>)
   \<and> process_issue senate_env (example_issue 45) ''congressional_records'' three_complete
       = Some (Inr (0, False),
           three_complete\<lparr>request_count := 2, consecutive_existing_issues := 1,
             sent := 2, ops := 2\<rparr>)
   \<and> check_issue_completeness senate_env (example_issue 44) ''congressional_records''
        (three_complete\<lparr>request_count := 2, consecutive_existing_issues := 1,
           sent := 2, ops := 2\<rparr>)
       = Some (Inr (True, 1, 1),
           three_complete\<lparr>request_count := 3, consecutive_existing_issues := 1,
             sent := 3, ops := 3\<rparr>)
   \<and> process_issue senate_env (example_issue 44) ''congressional_records''
        (three_complete\<lparr>request_count := 2, consecutive_existing_issues := 1,
           sent := 2, ops := 2\<rparr>)
       = Some (Inr (0, False),
           three_complete\<lparr>key_index := 1, request_count := 4,
             consecutive_existing_issues := 2, sent := 4, ops := 4\<rparr>)
   \<and> check_issue_completeness senate_env (example_issue 43) ''congressional_records''
        (three_complete\<lparr>key_index := 1, request_count := 4,
           consecutive_existing_issues := 2, sent := 4, ops := 4\<rparr>)
       = Some (Inr (True, 1, 1),
           three_complete\<lparr>key_index := 1, request_count := 5,
             consecutive_existing_issues := 2, sent := 5, ops := 5\<rparr>)
   \<and> process_issue senate_env (example_issue 43) ''congressional_records''
        (three_complete\<lparr>key_index := 1, request_count := 4,
           consecutive_existing_issues := 2, sent := 4, ops := 4\<rparr>)
       = Some (Inr (0, True),
           three_complete\<lparr>key_index := 1, request_count := 5,
             consecutive_existing_issues := 3, sent := 5, ops := 5\<rparr>)
   \<and> main_loop senate_env ''congressional_records''
        [example_issue 45, example_issue 44, example_issue 43, example_issue 42] (0, 0)
        three_complete
       = Some ((0, 3),
           three_complete\<lparr>key_index := 1, request_count := 5,
             consecutive_existing_issues := 3, sent := 5, ops := 5\<rparr>)"
proof -
  have h0: "consecutive_existing_issues three_complete = 0"
    by code_simp
  have h1: "check_issue_completeness senate_env (example_issue 45) ''congressional_records''
        three_complete
       = Some (Inr (True, 1, 1), three_complete\<lparr>request_count := 1, sent := 1, ops := 1\<rparr>)"
    by code_simp
  have h2: "process_issue senate_env (example_issue 45) ''congressional_records'' three_complete
       = Some (Inr (0, False),
           three_complete\<lparr>request_count := 2, consecutive_existing_issues := 1,
             sent := 2, ops := 2\<rparr>)"
    by code_simp
  have h3: "check_issue_completeness senate_env (example_issue 44) ''congressional_records''
        (three_complete\<lparr>request_count := 2, consecutive_existing_issues := 1,
           sent := 2, ops := 2\<rparr>)
       = Some (Inr (True, 1, 1),
           three_complete\<lparr>request_count := 3, consecutive_existing_issues := 1,
             sent := 3, ops := 3\<rparr>)"
    by code_simp
  have h4: "process_issue senate_env (example_issue 44) ''congressional_records''
        (three_complete\<lparr>request_count := 2, consecutive_existing_issues := 1,
           sent := 2, ops := 2\<rparr>)
       = Some (Inr (0, False),
           three_complete\<lparr>key_index := 1, request_count := 4,
             consecutive_existing_issues := 2, sent := 4, ops := 4\<rparr>)"
    by code_simp
  have h5: "check_issue_completeness senate_env (example_issue 43) ''congressional_records''
        (three_complete\<lparr>key_index := 1, request_count := 4,
           consecutive_existing_issues := 2, sent := 4, ops := 4\<rparr>)
       = Some (Inr (True, 1, 1),
           three_complete\<lparr>key_index := 1, request_count := 5,
             consecutive_existing_issues := 2, sent := 5, ops := 5\<rparr>)"
    by code_simp
  show ?thesis
    using stop_after_three_complete [OF h0 h1 h2 h3 h4 h5, of "example_issue 42" "[]"]
      h0 h1 h2 h3 h4 h5
    by simp
qed

section \<open>Properties of the catalog synchroniser\<close>

lemma take_page_takeWhile:
  "take_page (fromisoformat env) d page acc =
     (acc @ takeWhile (not_older env d) page, \<exists>i\<in>set page. \<not> not_older env d i)"
  by (induction page arbitrary: acc) (simp_all add: not_older_def)

text \<open>One round of the loop of \<open>fetch_recent_issues\<close>, given what the request returns.\<close>

lemma fetch_loop_round:
  assumes "make_request env s = Some (Inr data, s1)"
  shows "fetch_loop env d acc s =
     (if data_issues data = [] then Some (Inr acc, s1)
      else if \<exists>i\<in>set (data_issues data). \<not> not_older env d i
      then Some (Inr (acc @ takeWhile (not_older env d) (data_issues data)), s1)
      else if \<not> data_next data then Some (Inr (acc @ data_issues data), s1)
      else fetch_loop env d (acc @ data_issues data) s1)"
proof -
  have all: "takeWhile (not_older env d) xs = xs" if "\<not> (\<exists>i\<in>set xs. \<not> not_older env d i)" for xs
    using that by (simp add: takeWhile_eq_all_conv)
  show ?thesis
    by (subst fetch_loop.simps)
      (auto simp: assms data_issues_def data_next_def take_page_takeWhile all
        split: option.splits)
qed

lemma takeWhile_all: "\<forall>x\<in>set xs. P x \<Longrightarrow> takeWhile P (xs @ ys) = xs @ takeWhile P ys"
  by (induction xs) simp_all

lemma fetch_loop_pages:
  assumes "listing_served env s (pages @ [final]) = Some s'"
    and "\<forall>p\<in>set pages. data_next p \<and> data_issues p \<noteq> []
           \<and> (\<forall>i\<in>set (data_issues p). not_older env d i)"
    and "data_issues final = [] \<or> \<not> data_next final
           \<or> (\<exists>i\<in>set (data_issues final). \<not> not_older env d i)"
  shows "fetch_loop env d acc s
           = Some (Inr (acc @ takeWhile (not_older env d)
                 (concat (map data_issues (pages @ [final])))), s')"
  using assms
proof (induction pages arbitrary: s acc)
  case Nil
  from Nil.prems(1) obtain s1 where
    req: "make_request env s = Some (Inr final, s1)" and s1: "s1 = s'"
    by (auto split: option.splits sum.splits prod.splits if_splits)
  have all: "takeWhile (not_older env d) xs = xs" if "\<not> (\<exists>i\<in>set xs. \<not> not_older env d i)" for xs
    using that by (simp add: takeWhile_eq_all_conv)
  from Nil.prems(3) show ?case
    unfolding fetch_loop_round [OF req] s1
    by (auto simp: all)
next
  case (Cons p pages)
  from Cons.prems(1) obtain s1 where
    req: "make_request env s = Some (Inr p, s1)"
    and rest: "listing_served env s1 (pages @ [final]) = Some s'"
    by (auto split: option.splits sum.splits prod.splits if_splits)
  from Cons.prems(2) have p: "data_next p" "data_issues p \<noteq> []"
    "\<forall>i\<in>set (data_issues p). not_older env d i"
    and pages: "\<forall>p\<in>set pages. data_next p \<and> data_issues p \<noteq> []
           \<and> (\<forall>i\<in>set (data_issues p). not_older env d i)"
    by simp_all
  have "fetch_loop env d acc s = fetch_loop env d (acc @ data_issues p) s1"
    unfolding fetch_loop_round [OF req] using p by auto
  also have "\<dots> = Some (Inr ((acc @ data_issues p) @ takeWhile (not_older env d)
                 (concat (map data_issues (pages @ [final])))), s')"
    by (rule Cons.IH [OF rest pages Cons.prems(3)])
  also have "(acc @ data_issues p) @ takeWhile (not_older env d)
                 (concat (map data_issues (pages @ [final])))
           = acc @ takeWhile (not_older env d) (concat (map data_issues ((p # pages) @ [final])))"
    using takeWhile_all [OF p(3)] by simp
  finally show ?case .
qed

text \<open>On a listing that comes newest first, cutting at the first older issue is filtering.\<close>

lemma takeWhile_filter_descending:
  "sorted_wrt (\<lambda>a b. fromisoformat env (issueDate b) \<le> fromisoformat env (issueDate a)) xs \<Longrightarrow>
   takeWhile (not_older env d) xs = filter (not_older env d) xs"
proof (induction xs)
  case Nil
  then show ?case by simp
next
  case (Cons x xs)
  show ?case
  proof (cases "not_older env d x")
    case True
    with Cons show ?thesis by simp
  next
    case False
    with Cons.prems have "\<forall>y\<in>set xs. \<not> not_older env d y"
      by (auto simp: not_older_def)
    then have "filter (not_older env d) xs = []"
      by (simp add: filter_empty_conv)
    with False show ?thesis by simp
  qed
qed

lemma newest_first_head:
  assumes "x \<in> set xs"
  shows "issueDate x \<le> issueDate (hd (sort_newest_first xs))"
proof -
  define ys where "ys = sort_key issueDate (rev xs)"
  have sorted: "sorted (map issueDate ys)" and mem: "x \<in> set ys"
    using assms by (simp_all add: ys_def)
  then have "ys \<noteq> []" by auto
  then have ys: "ys = butlast ys @ [last ys]" by simp
  have "sorted (map issueDate (butlast ys) @ [issueDate (last ys)])"
    using sorted by (subst (asm) ys) simp
  then have "\<forall>y\<in>set (butlast ys). issueDate y \<le> issueDate (last ys)"
    by (simp add: sorted_append)
  moreover from mem have "x \<in> set (butlast ys) \<or> x = last ys"
    by (subst (asm) ys) auto
  ultimately have "issueDate x \<le> issueDate (last ys)" by auto
  moreover have "hd (sort_newest_first xs) = last ys"
    using \<open>ys \<noteq> []\<close> by (simp add: sort_newest_first_def ys_def hd_rev)
  ultimately show ?thesis by simp
qed

text \<open>
  C2. Let \<open>d\<close> be the date of the newest entry of the existing catalog, and let the listing
  requests of the pass return the pages \<open>pages\<close>, on which the loop goes on, and then
  \<open>final\<close>, on which it ends (an empty page, no further page, or an issue older than \<open>d\<close>).
  Then the pass returns the fetched descriptors up to, and without, the first one that is
  strictly older than \<open>d\<close>: everything accumulated before that point is kept. On a listing
  that comes newest first these are exactly the fetched descriptors that are not older than
  \<open>d\<close>. The catalog written is the existing one merged with these descriptors.
\<close>

theorem cutoff_keeps_newer_discards_older:
  assumes "loaded \<noteq> []"
    and "d = fromisoformat env (issueDate (hd (sort_newest_first loaded)))"
    and "listing_served env s (pages @ [final]) = Some s'"
    and "\<forall>p\<in>set pages. data_next p \<and> data_issues p \<noteq> []
           \<and> (\<forall>i\<in>set (data_issues p). not_older env d i)"
    and "data_issues final = [] \<or> \<not> data_next final
           \<or> (\<exists>i\<in>set (data_issues final). \<not> not_older env d i)"
  shows "(\<forall>x\<in>set loaded. issueDate x \<le> issueDate (hd (sort_newest_first loaded)))
       \<and> fetch_recent_issues env (Some d) s
           = Some (Inr (takeWhile (not_older env d) (concat (map data_issues (pages @ [final])))),
               s')
       \<and> (sorted_wrt (\<lambda>a b. fromisoformat env (issueDate b) \<le> fromisoformat env (issueDate a))
            (concat (map data_issues (pages @ [final]))) \<longrightarrow>
          takeWhile (not_older env d) (concat (map data_issues (pages @ [final])))
            = filter (not_older env d) (concat (map data_issues (pages @ [final]))))
       \<and> update_issues_file env loaded s
           = Some (Inr
               (if takeWhile (not_older env d) (concat (map data_issues (pages @ [final]))) = []
                then sort_newest_first loaded
                else sort_newest_first
                  (append_new (set (map issue_id (sort_newest_first loaded)))
                     (sort_newest_first loaded)
                     (takeWhile (not_older env d) (concat (map data_issues (pages @ [final])))))),
               s')"
proof (intro conjI ballI impI)
  fix x assume "x \<in> set loaded"
  then show "issueDate x \<le> issueDate (hd (sort_newest_first loaded))"
    by (rule newest_first_head)
next
  from fetch_loop_pages [OF assms(3) assms(4) assms(5), of "[]"]
  show fetched: "fetch_recent_issues env (Some d) s
           = Some (Inr (takeWhile (not_older env d) (concat (map data_issues (pages @ [final])))),
               s')"
    by (simp add: fetch_recent_issues_def)
  show "update_issues_file env loaded s
           = Some (Inr
               (if takeWhile (not_older env d) (concat (map data_issues (pages @ [final]))) = []
                then sort_newest_first loaded
                else sort_newest_first
                  (append_new (set (map issue_id (sort_newest_first loaded)))
                     (sort_newest_first loaded)
                     (takeWhile (not_older env d) (concat (map data_issues (pages @ [final])))))),
               s')"
    unfolding update_issues_file_def Let_def
    using assms(1) fetched by (simp add: assms(2) [symmetric])
next
  assume "sorted_wrt (\<lambda>a b. fromisoformat env (issueDate b) \<le> fromisoformat env (issueDate a))
            (concat (map data_issues (pages @ [final])))"
  then show "takeWhile (not_older env d) (concat (map data_issues (pages @ [final])))
            = filter (not_older env d) (concat (map data_issues (pages @ [final])))"
    by (rule takeWhile_filter_descending)
qed

theorem cutoff_keeps_newer_discards_older_witness:
  "june_catalog \<noteq> []
   \<and> 20230601 = fromisoformat june_pages (issueDate (hd (sort_newest_first june_catalog)))
   \<and> listing_served june_pages (example_state [''key-1''] [])
        ([Some (issues_document [dated_issue 96 ''2023-06-05T04:00:00Z'',
                                 dated_issue 95 ''2023-06-02T04:00:00Z''] True)]
         @ [Some (issues_document [dated_issue 94 ''2023-06-01T04:00:00Z'',
                                   dated_issue 93 ''2023-05-31T04:00:00Z'',
                                   dated_issue 92 ''2023-05-30T04:00:00Z''] True)])
       = Some ((example_state [''key-1''] [])\<lparr>request_count := 2, sent := 2, ops := 2\<rparr>)
   \<and> list_all (not_older june_pages 20230601)
        [dated_issue 96 ''2023-06-05T04:00:00Z'', dated_issue 95 ''2023-06-02T04:00:00Z'']
   \<and> \<not> not_older june_pages 20230601 (dated_issue 93 ''2023-05-31T04:00:00Z'')
   \<and> fetch_recent_issues june_pages (Some 20230601) (example_state [''key-1''] [])
       = Some (Inr [dated_issue 96 ''2023-06-05T04:00:00Z'',
                    dated_issue 95 ''2023-06-02T04:00:00Z'',
                    dated_issue 94 ''2023-06-01T04:00:00Z''],
           (example_state [''key-1''] [])\<lparr>request_count := 2, sent := 2, ops := 2\<rparr>)
   \<and> update_issues_file june_pages june_catalog (example_state [''key-1''] [])
       = Some (Inr [dated_issue 96 ''2023-06-05T04:00:00Z'',
                    dated_issue 95 ''2023-06-02T04:00:00Z'',
                    dated_issue 94 ''2023-06-01T04:00:00Z'',
                    dated_issue 93 ''2023-05-31T04:00:00Z''],
           (example_state [''key-1''] [])\<lparr>request_count := 2, sent := 2, ops := 2\<rparr>)"
proof -
  let ?p1 = "Some (issues_document [dated_issue 96 ''2023-06-05T04:00:00Z'',
                                    dated_issue 95 ''2023-06-02T04:00:00Z''] True)"
  let ?p2 = "Some (issues_document [dated_issue 94 ''2023-06-01T04:00:00Z'',
                                    dated_issue 93 ''2023-05-31T04:00:00Z'',
                                    dated_issue 92 ''2023-05-30T04:00:00Z''] True)"
  let ?s = "example_state [''key-1''] []"
  let ?s' = "(example_state [''key-1''] [])\<lparr>request_count := 2, sent := 2, ops := 2\<rparr>"
  have h1: "june_catalog \<noteq> []"
    by (simp add: june_catalog_def)
  have h2: "20230601 = fromisoformat june_pages (issueDate (hd (sort_newest_first june_catalog)))"
    by code_simp
  have h3: "listing_served june_pages ?s ([?p1] @ [?p2]) = Some ?s'"
    by code_simp
  have all1: "list_all (not_older june_pages 20230601)
        [dated_issue 96 ''2023-06-05T04:00:00Z'', dated_issue 95 ''2023-06-02T04:00:00Z'']"
    by code_simp
  have issues1: "data_issues ?p1
      = [dated_issue 96 ''2023-06-05T04:00:00Z'', dated_issue 95 ''2023-06-02T04:00:00Z'']"
    by code_simp
  have next1: "data_next ?p1"
    by code_simp
  have h4: "\<forall>p\<in>set [?p1]. data_next p \<and> data_issues p \<noteq> []
           \<and> (\<forall>i\<in>set (data_issues p). not_older june_pages 20230601 i)"
    using all1 next1 by (simp add: issues1)
  have older: "\<not> not_older june_pages 20230601 (dated_issue 93 ''2023-05-31T04:00:00Z'')"
    by code_simp
  have "dated_issue 93 ''2023-05-31T04:00:00Z'' \<in> set (data_issues ?p2)"
    by code_simp
  with older have h5: "data_issues ?p2 = [] \<or> \<not> data_next ?p2
           \<or> (\<exists>i\<in>set (data_issues ?p2). \<not> not_older june_pages 20230601 i)"
    by blast
  have kept: "takeWhile (not_older june_pages 20230601) (concat (map data_issues ([?p1] @ [?p2])))
      = [dated_issue 96 ''2023-06-05T04:00:00Z'', dated_issue 95 ''2023-06-02T04:00:00Z'',
         dated_issue 94 ''2023-06-01T04:00:00Z'']"
    by code_simp
  have merged: "sort_newest_first
        (append_new (set (map issue_id (sort_newest_first june_catalog)))
           (sort_newest_first june_catalog)
           [dated_issue 96 ''2023-06-05T04:00:00Z'', dated_issue 95 ''2023-06-02T04:00:00Z'',
            dated_issue 94 ''2023-06-01T04:00:00Z''])
      = [dated_issue 96 ''2023-06-05T04:00:00Z'', dated_issue 95 ''2023-06-02T04:00:00Z'',
         dated_issue 94 ''2023-06-01T04:00:00Z'', dated_issue 93 ''2023-05-31T04:00:00Z'']"
    by code_simp
  show ?thesis
    using cutoff_keeps_newer_discards_older [OF h1 h2 h3 h4 h5] h1 h2 h3 all1 older
    unfolding kept merged
    by simp
qed

text \<open>
  C3 at a fetched batch that names issue 95 twice, merged into an empty catalog: both
  entries are appended, because the set of known keys is computed once before the merge loop
  and never extended.
\<close>

theorem merge_keeps_duplicate_from_batch:
  "map_option fst (update_issues_file overlapping_pages [] (example_state [''key-1''] []))
     = Some (Inr [dated_issue 96 ''2023-06-05T04:00:00Z'',
                  dated_issue 95 ''2023-06-02T04:00:00Z'',
                  dated_issue 95 ''2023-06-02T04:00:00Z'',
                  dated_issue 94 ''2023-06-01T04:00:00Z''])
   \<and> \<not> distinct (map issue_id
         [dated_issue 96 ''2023-06-05T04:00:00Z'',
          dated_issue 95 ''2023-06-02T04:00:00Z'',
          dated_issue 95 ''2023-06-02T04:00:00Z'',
          dated_issue 94 ''2023-06-01T04:00:00Z''])"
  by code_simp

text \<open>
  What the merge does guarantee: no fetched descriptor is appended whose key is in the
  existing catalog, so keys stay unique when they are unique in the catalog and in the batch.
\<close>

lemma append_new_filter:
  "append_new ids existing recent = existing @ filter (\<lambda>i. issue_id i \<notin> ids) recent"
  by (induction recent arbitrary: existing) simp_all

lemma distinct_ids_sort_newest_first:
  "distinct (map issue_id (sort_newest_first xs)) = distinct (map issue_id xs)"
  by (simp add: sort_newest_first_def distinct_map)

lemma merge_distinct:
  assumes "distinct (map issue_id existing)" and "distinct (map issue_id recent)"
  shows "distinct (map issue_id
           (sort_newest_first (append_new (set (map issue_id existing)) existing recent)))"
proof -
  have "distinct (map issue_id (filter (\<lambda>i. issue_id i \<notin> set (map issue_id existing)) recent))"
    using assms(2) by (rule distinct_map_filter)
  with assms(1) show ?thesis
    unfolding distinct_ids_sort_newest_first append_new_filter
    by (auto simp: distinct_map)
qed

section \<open>Interrupts\<close>


























end
